theory Spec2Isabelle
  imports Main
begin

section \<open>The option model of \<open>cli_parser.h\<close>\<close>

text \<open>
  The header declares one class, \<open>cli::Parser\<close>, with the nested classes \<open>Option\<close> and
  \<open>Option::Argument\<close>. Each class is a record of its data members, under the members'
  own names. The exception class \<open>ParsingException\<close> carries its message, and the enum
  \<open>ParsingResult\<close> is a datatype of its four enumerators.
\<close>

datatype ParsingException = ParsingException string

datatype ParsingResult = PARSED_OK | PARSED_HELP | PARSED_FAILED | PARSED_FAILED_VALIDATOR

text \<open>The enumerators' integer values, as the enum declaration gives them.\<close>

fun ParsingResult_value :: "ParsingResult \<Rightarrow> int" where
  "ParsingResult_value PARSED_OK = 0"
| "ParsingResult_value PARSED_HELP = 1"
| "ParsingResult_value PARSED_FAILED = - 2"
| "ParsingResult_value PARSED_FAILED_VALIDATOR = - 3"

record Argument =
  mId :: string
  mDesc :: string
  mValue :: string

text \<open>\<open>Argument(id, desc)\<close>: \<open>mValue\<close> is default-constructed, the empty string.\<close>

definition Argument_init :: "string \<Rightarrow> string \<Rightarrow> Argument" where
  "Argument_init ident desc = \<lparr>mId = ident, mDesc = desc, mValue = []\<rparr>"

text \<open>
  An option's data members. The validator is a \<open>std::function<bool(Option&)>\<close>; it is
  handed the option itself. A record cannot hold a function over its own type, so the
  data members the validator is handed are the record \<open>OptionData\<close> and \<open>Option\<close>
  extends it by the validator; \<open>nullptr\<close> is \<open>None\<close>. The validator is a
  predicate: what it does besides returning its verdict is outside this development.
\<close>

record OptionData =
  mOpts :: "string list"
  mDescription :: string
  mMandatory :: bool
  mArgsRef :: "Argument list"
  mArgsMap :: "string \<rightharpoonup> nat"
  mProvided :: bool

record Option = OptionData +
  mValidator :: "(OptionData \<Rightarrow> bool) option"

text \<open>
  The constructor's loop \<open>for (i = 0; i < mArgsRef.size(); ++i)
  mArgsMap.insert(make_pair(mArgsRef[i].mId, i))\<close>. \<open>std::map::insert\<close> leaves an
  existing key as it is, so an id that occurs twice keeps its first index.
\<close>

fun insert_args :: "Argument list \<Rightarrow> nat \<Rightarrow> (string \<rightharpoonup> nat) \<Rightarrow> (string \<rightharpoonup> nat)" where
  "insert_args [] i m = m"
| "insert_args (a # as) i m =
     insert_args as (Suc i) (case m (mId a) of None \<Rightarrow> m(mId a \<mapsto> i) | Some _ \<Rightarrow> m)"

definition Option_init ::
  "string list \<Rightarrow> string \<Rightarrow> bool \<Rightarrow> Argument list \<Rightarrow> (OptionData \<Rightarrow> bool) option \<Rightarrow> Option" where
  "Option_init opts description mandatory args validator =
     \<lparr>mOpts = opts, mDescription = description, mMandatory = mandatory,
      mArgsRef = args, mArgsMap = insert_args args 0 Map.empty, mProvided = False,
      mValidator = validator\<rparr>"

text \<open>
  \<open>Option::value(id)\<close>: throws \<open>ParsingException("Invalid Argument")\<close> for an id that
  is not a key of \<open>mArgsMap\<close>, and returns the value of the slot at the mapped index
  otherwise.
\<close>

definition Option_value :: "'a OptionData_scheme \<Rightarrow> string \<Rightarrow> ParsingException + string" where
  "Option_value opt ident =
     (case mArgsMap opt ident of
        None \<Rightarrow> Inl (ParsingException ''Invalid Argument'')
      | Some i \<Rightarrow> Inr (mValue (mArgsRef opt ! i)))"

definition checkMandatory :: "'a OptionData_scheme \<Rightarrow> bool" where
  "checkMandatory opt = (\<not> mMandatory opt \<or> mProvided opt)"

text \<open>
  The parser. \<open>mOptionRefs\<close> is a \<open>std::list<Option>\<close>, whose nodes never move, and
  \<open>mOptionsMap\<close> maps an alias to a pointer to a node of that list. The pointer is the
  node's position in the list: parsing writes through it, and the mandatory check
  afterwards reads the same nodes by walking the list. The parser's own description is
  \<open>mProgDescription\<close> here, since \<open>mDescription\<close> names the option's.
\<close>

record Parser =
  mProgram :: string
  mVersion :: string
  mProgDescription :: string
  mOptionRefs :: "Option list"
  mOptionsMap :: "string \<rightharpoonup> nat"

definition Parser_init :: "string \<Rightarrow> string \<Rightarrow> string \<Rightarrow> Parser" where
  "Parser_init program version description =
     \<lparr>mProgram = program, mVersion = version, mProgDescription = description,
      mOptionRefs = [], mOptionsMap = Map.empty\<rparr>"

text \<open>
  \<open>addOption\<close>: \<open>push_back\<close> a copy, then \<open>mOptionsMap[opt] = &ref\<close> for each alias
  of the copy, in order. \<open>operator[]\<close> assigns whether the key is there or not.
\<close>

definition addOption :: "Parser \<Rightarrow> Option \<Rightarrow> Parser" where
  "addOption p option =
     (let ref = length (mOptionRefs p) in
      p\<lparr>mOptionRefs := mOptionRefs p @ [option],
        mOptionsMap := fold (\<lambda>opt m. m(opt \<mapsto> ref)) (mOpts option) (mOptionsMap p)\<rparr>)"

definition addOptions :: "Parser \<Rightarrow> Option list \<Rightarrow> Parser" where
  "addOptions p options = fold (\<lambda>option q. addOption q option) options p"

text \<open>
  \<open>operator()(opt)\<close>: throws \<open>ParsingException("Option Not Found!")\<close> for an alias
  that is not a key of \<open>mOptionsMap\<close>, and returns the option pointed to otherwise.
\<close>

definition Parser_call :: "Parser \<Rightarrow> string \<Rightarrow> ParsingException + Option" where
  "Parser_call p opt =
     (case mOptionsMap p opt of
        None \<Rightarrow> Inl (ParsingException ''Option Not Found!'')
      | Some ref \<Rightarrow> Inr (mOptionRefs p ! ref))"

section \<open>Composing the help string\<close>

text \<open>
  The macro \<open>CLI_MAX_LINE_WIDTH\<close>, with the value the header gives it when the build
  defines none. The columns of the help string are the integer quotients
  \<open>CLI_MAX_LINE_WIDTH * 30 / 100\<close> and so on, all positive.
\<close>

definition CLI_MAX_LINE_WIDTH :: nat where
  "CLI_MAX_LINE_WIDTH = 80"

definition endl :: string where
  "endl = [CHR 0x0A]"

text \<open>\<open>std::string::find_last_of(c)\<close>: the last index holding \<open>c\<close>; \<open>npos\<close> is \<open>None\<close>.\<close>

primrec find_last_of :: "string \<Rightarrow> char \<Rightarrow> nat option" where
  "find_last_of [] c = None"
| "find_last_of (x # xs) c =
     (case find_last_of xs c of
        Some i \<Rightarrow> Some (Suc i)
      | None \<Rightarrow> if x = c then Some 0 else None)"

text \<open>
  The loop of \<open>splitWords\<close>, on its variables \<open>ss\<close> (the text written to the string
  stream so far), \<open>copy\<close> and \<open>padStrInUse\<close>. With \<open>width = 0\<close> and a non-empty
  \<open>copy\<close> the body leaves \<open>copy\<close> as it is and the loop does not end, so the function is
  partial: \<open>None\<close> is not returning.
\<close>

partial_function (option) splitWords_loop ::
  "nat \<Rightarrow> string \<Rightarrow> string \<Rightarrow> string \<Rightarrow> string \<Rightarrow> string option" where
  "splitWords_loop width padStr ss copy padStrInUse =
     (if length copy > width then
        (let block = take width copy in
         case find_last_of block (CHR '' '') of
           Some index \<Rightarrow>
             splitWords_loop width padStr
               (ss @ padStrInUse @ take index block @ endl) (drop (index + 1) copy) padStr
         | None \<Rightarrow>
             splitWords_loop width padStr
               (ss @ padStrInUse @ block @ endl) (drop width copy) padStr)
      else Some (ss @ padStrInUse @ copy))"

declare splitWords_loop.simps [code]

definition splitWords :: "string \<Rightarrow> nat \<Rightarrow> string \<Rightarrow> string option" where
  "splitWords val width padStr = splitWords_loop width padStr [] val []"

text \<open>
  \<open>std::setw(n)\<close> with \<open>std::left\<close> and with \<open>std::right\<close>, for one string: the
  string is padded with spaces up to \<open>n\<close> characters and never cut.
\<close>

definition setw_left :: "nat \<Rightarrow> string \<Rightarrow> string" where
  "setw_left n s = s @ replicate (n - length s) (CHR '' '')"

definition setw_right :: "nat \<Rightarrow> string \<Rightarrow> string" where
  "setw_right n s = replicate (n - length s) (CHR '' '') @ s"

definition separtor :: string where
  "separtor = replicate CLI_MAX_LINE_WIDTH (CHR ''-'')"

definition column_pad :: string where
  "column_pad = replicate (CLI_MAX_LINE_WIDTH * 30 div 100) (CHR '' '')"

text \<open>The inner loop of \<open>composeHelpString\<close> over an option's argument slots.\<close>

fun help_arguments :: "Argument list \<Rightarrow> string option" where
  "help_arguments [] = Some []"
| "help_arguments (arg # rest) =
     (case splitWords (mDesc arg) (CLI_MAX_LINE_WIDTH * 70 div 100) column_pad of
        None \<Rightarrow> None
      | Some desc \<Rightarrow>
          (case help_arguments rest of
             None \<Rightarrow> None
           | Some below \<Rightarrow>
               Some (column_pad @ (''{'' @ mId arg @ ''} => '') @ desc @ endl @ below)))"

text \<open>
  The label of an option's row. \<open>front()\<close> of an empty alias list is undefined in
  C++; here it is \<open>hd []\<close>, about which nothing is known.
\<close>

definition optsStr :: "'a OptionData_scheme \<Rightarrow> string" where
  "optsStr opt =
     (if mMandatory opt then ''*'' else []) @ hd (mOpts opt)
       @ concat (map (\<lambda>it. '', '' @ it) (tl (mOpts opt)))
       @ (if length (mArgsRef opt) > 0 then '' {args...}'' else [])"

fun help_options :: "Option list \<Rightarrow> string option" where
  "help_options [] = Some []"
| "help_options (opt # rest) =
     (case splitWords (mDescription opt) (CLI_MAX_LINE_WIDTH * 70 div 100) column_pad of
        None \<Rightarrow> None
      | Some desc \<Rightarrow>
          (case (if length (mArgsRef opt) > 0
                 then map_option (\<lambda>lines. column_pad @ ''Arguments: '' @ endl @ lines)
                        (help_arguments (mArgsRef opt))
                 else Some []) of
             None \<Rightarrow> None
           | Some args \<Rightarrow>
               (case help_options rest of
                  None \<Rightarrow> None
                | Some below \<Rightarrow>
                    Some (setw_left (CLI_MAX_LINE_WIDTH * 30 div 100) (optsStr opt)
                            @ desc @ endl @ args @ below))))"

definition composeHelpString :: "Parser \<Rightarrow> string option" where
  "composeHelpString p =
     (let banner =
            (if length (mProgram p) > 0
             then separtor @ endl
                    @ setw_left (CLI_MAX_LINE_WIDTH * 75 div 100) (mProgram p)
                    @ setw_right (CLI_MAX_LINE_WIDTH * 25 div 100) (mVersion p)
                    @ endl @ separtor @ endl
             else [])
      in case (if length (mProgDescription p) > 0
               then map_option (\<lambda>text. text @ endl @ separtor @ endl)
                      (splitWords (mProgDescription p) CLI_MAX_LINE_WIDTH [])
               else Some []) of
           None \<Rightarrow> None
         | Some description \<Rightarrow>
             (case help_options (mOptionRefs p) of
                None \<Rightarrow> None
              | Some rows \<Rightarrow> Some (banner @ description @ endl @ rows)))"

section \<open>Parsing\<close>

text \<open>
  \<open>parse(argc, argv)\<close> takes the argument vector as the list of its strings and
  \<open>argc\<close> beside it, as the source does; the statements below are about calls with
  \<open>argc\<close> the length of the vector, as \<open>main\<close> receives them.

  What one call of \<open>parse\<close> writes to \<open>std::cout\<close> and to \<open>std::cerr\<close>:
\<close>

record Streams =
  cout :: string
  cerr :: string

definition silent :: Streams where
  "silent = \<lparr>cout = [], cerr = []\<rparr>"

text \<open>The single quote that the messages put around names.\<close>

definition sq :: char where
  "sq = CHR 0x27"

text \<open>
  The loop over the matched option's slots, \<open>for (auto& innerArg : opt->mArgsRef)\<close>:
  it returns the cursor, the slots as the loop leaves them, and the slot at which
  \<open>i + 1 >= argc\<close> held, if there was one. The cursor is an \<open>int\<close> in the source; it
  stays below \<open>argc\<close>, so it never wraps.
\<close>

fun parse_innerArgs ::
  "int \<Rightarrow> string list \<Rightarrow> int \<Rightarrow> Argument list \<Rightarrow> int \<times> Argument list \<times> Argument option" where
  "parse_innerArgs argc argv i [] = (i, [], None)"
| "parse_innerArgs argc argv i (innerArg # rest) =
     (if i + 1 \<ge> argc then (i, innerArg # rest, Some innerArg)
      else
        (case parse_innerArgs argc argv (i + 1) rest of
           (i', rest', missing) \<Rightarrow>
             (i', innerArg\<lparr>mValue := argv ! nat (i + 1)\<rparr> # rest', missing)))"

text \<open>The test \<open>opt->mValidator != nullptr && !opt->mValidator(*opt)\<close>.\<close>

definition validator_rejects :: "Option \<Rightarrow> bool" where
  "validator_rejects opt =
     (case mValidator opt of
        None \<Rightarrow> False
      | Some validator \<Rightarrow> \<not> validator (OptionData.truncate opt))"

text \<open>
  One round of the \<open>for\<close> loop of \<open>parse\<close>, at cursor \<open>i\<close>: it either returns from
  \<open>parse\<close>, with the result, the parser as it then is and what was written, or it goes
  on with the next round, with the parser and the cursor as the slots' loop left it
  (the \<open>++i\<close> of the loop header is in \<open>parse_loop\<close>). \<open>None\<close>: the help string was asked
  for and \<open>composeHelpString\<close> did not return.
\<close>

datatype step = Return ParsingResult Parser Streams | Continue Parser int

definition parse_body :: "Parser \<Rightarrow> int \<Rightarrow> string list \<Rightarrow> int \<Rightarrow> step option" where
  "parse_body p argc argv i =
     (let arg = argv ! nat i in
      if arg = ''--help'' \<or> arg = ''-h'' \<or> arg = ''/?'' then
        map_option (\<lambda>help. Return PARSED_HELP p \<lparr>cout = help @ endl, cerr = []\<rparr>)
          (composeHelpString p)
      else
        (case mOptionsMap p arg of
           None \<Rightarrow>
             Some (Return PARSED_FAILED p
               \<lparr>cout = [],
                cerr = ''Invalid argument {'' @ [sq] @ arg @ [sq]
                         @ ''}. Please use --help for more information.'' @ endl\<rparr>)
         | Some ref \<Rightarrow>
             (let opt = mOptionRefs p ! ref in
              case parse_innerArgs argc argv i (mArgsRef opt) of
                (i', args', missing) \<Rightarrow>
                  (let opt' = opt\<lparr>mArgsRef := args'\<rparr>;
                       p' = p\<lparr>mOptionRefs := (mOptionRefs p)[ref := opt']\<rparr>
                   in case missing of
                        Some innerArg \<Rightarrow>
                          Some (Return PARSED_FAILED p'
                            \<lparr>cout = [],
                             cerr = ''Missing argument {'' @ [sq] @ mId innerArg @ [sq]
                                      @ ''} for parameter '' @ [sq] @ arg @ [sq]
                                      @ ''. Please use --help for more information.''
                                      @ endl\<rparr>)
                      | None \<Rightarrow>
                          if validator_rejects opt' then
                            Some (Return PARSED_FAILED_VALIDATOR p' silent)
                          else
                            Some (Continue
                              (p\<lparr>mOptionRefs :=
                                   (mOptionRefs p)[ref := opt'\<lparr>mProvided := True\<rparr>]\<rparr>)
                              i')))))"

text \<open>The slots' loop never moves the cursor back, so the loop of \<open>parse\<close> ends.\<close>

lemma parse_innerArgs_cursor:
  "parse_innerArgs argc argv i args = (i', args', missing) \<Longrightarrow> i \<le> i'"
proof (induction args arbitrary: i i' args' missing)
  case Nil
  then show ?case by simp
next
  case (Cons a args)
  show ?case
  proof (cases "i + 1 \<ge> argc")
    case True
    with Cons.prems show ?thesis by simp
  next
    case False
    obtain j as m where r: "parse_innerArgs argc argv (i + 1) args = (j, as, m)"
      by (cases "parse_innerArgs argc argv (i + 1) args") auto
    from Cons.IH [OF r] have "i + 1 \<le> j" .
    moreover from Cons.prems False r have "i' = j" by simp
    ultimately show ?thesis by simp
  qed
qed

lemma parse_body_Continue_cursor:
  "parse_body p argc argv i = Some (Continue p' i') \<Longrightarrow> i \<le> i'"
  by (auto simp: parse_body_def Let_def split: if_splits option.splits prod.splits
      dest: parse_innerArgs_cursor)

text \<open>
  The \<open>for (int i = 1; i < argc; ++i)\<close> loop from cursor \<open>i\<close> on. The first component
  of what it returns is the result of an early \<open>return\<close>, or \<open>None\<close> when the loop ran
  to its end; the outer \<open>None\<close> is not returning.
\<close>

function parse_loop ::
  "Parser \<Rightarrow> int \<Rightarrow> string list \<Rightarrow> int \<Rightarrow> (ParsingResult option \<times> Parser \<times> Streams) option" where
  "parse_loop p argc argv i =
     (if i < argc then
        (case parse_body p argc argv i of
           None \<Rightarrow> None
         | Some (Return r p' out) \<Rightarrow> Some (Some r, p', out)
         | Some (Continue p' i') \<Rightarrow> parse_loop p' argc argv (i' + 1))
      else Some (None, p, silent))"
  by pat_completeness auto
termination
  by (relation "measure (\<lambda>(p, argc, argv, i). nat (argc - i))")
    (auto dest: parse_body_Continue_cursor)

declare parse_loop.simps [simp del]

text \<open>
  The second loop of \<open>parse\<close>, \<open>for (auto& opt : mOptionRefs)\<close>, with the
  \<open>return PARSED_OK\<close> after it. The message names the option by
  \<open>opt.mOpts.front()\<close>, which is \<open>hd\<close> here: for an option without aliases C++
  leaves it undefined, and nothing is known of \<open>hd []\<close>.
\<close>

fun parse_mandatory :: "Option list \<Rightarrow> ParsingResult \<times> Streams" where
  "parse_mandatory [] = (PARSED_OK, silent)"
| "parse_mandatory (opt # rest) =
     (if \<not> checkMandatory opt then
        (PARSED_FAILED,
         \<lparr>cout = [],
          cerr = ''Mandatory parameter {'' @ [sq] @ hd (mOpts opt) @ [sq]
                   @ ''} not provided. Please use --help for more information.'' @ endl\<rparr>)
      else parse_mandatory rest)"

text \<open>
  \<open>parse(argc, argv)\<close>: the result, the parser as the call leaves it, and what the call
  wrote.
\<close>

definition parse :: "Parser \<Rightarrow> int \<Rightarrow> string list \<Rightarrow> (ParsingResult \<times> Parser \<times> Streams) option" where
  "parse p argc argv =
     (case parse_loop p argc argv 1 of
        None \<Rightarrow> None
      | Some (Some r, p', out) \<Rightarrow> Some (r, p', out)
      | Some (None, p', _) \<Rightarrow>
          (case parse_mandatory (mOptionRefs p') of (r, out) \<Rightarrow> Some (r, p', out)))"


text \<open>A round of the loop seen from a cursor that counts from \<open>d\<close> positions earlier.\<close>

fun shift_step :: "int \<Rightarrow> step \<Rightarrow> step" where
  "shift_step d (Return r p out) = Return r p out"
| "shift_step d (Continue p j) = Continue p (d + j)"

text \<open>
  The registry of the sample program that comes with the header: \<open>main\<close> registers
  \<open>-v\<close>/\<open>--version\<close>, not mandatory, with a validator that sets a flag of \<open>main\<close>
  and returns \<open>true\<close>, and \<open>--mandatory\<close>, mandatory, with the two slots \<open>arg1\<close> and
  \<open>arg2\<close> and no validator. The first option's argument list is written \<open>{{}}\<close>
  there, which initialises the vector from an empty one.
\<close>

definition sample_version :: Option where
  "sample_version =
     Option_init [''-v'', ''--version''] ''Shows the application version.'' False []
       (Some (\<lambda>opt. True))"

definition sample_mandatory :: Option where
  "sample_mandatory =
     Option_init [''--mandatory'']
       ''This a mandatory argument and it expect two following args {arg1} and {arg2}.''
       True
       [Argument_init ''arg1'' ''The argument 1.'', Argument_init ''arg2'' ''The argument 2.'']
       None"

definition sample_parser :: Parser where
  "sample_parser =
     addOptions
       (Parser_init ''Sample Application'' ''9.9.9.9''
          (''This is a sample application description. The string here will be there''
             @ ''break into multiple lines if they overlap CLI_MAX_LINE_WIDTH''))
       [sample_version, sample_mandatory]"

text \<open>
  A registry for the examples below: one option \<open>-x\<close>, not mandatory, with the slot
  \<open>n\<close> and a validator that accepts the option when the slot's value is \<open>ok\<close>.
\<close>

definition picky_option :: Option where
  "picky_option =
     Option_init [''-x''] [] False [Argument_init ''n'' []]
       (Some (\<lambda>opt. Option_value opt ''n'' = Inr ''ok''))"

definition picky_parser :: Parser where
  "picky_parser = addOption (Parser_init [] [] []) picky_option"





section \<open>Word wrapping\<close>

lemma find_last_of_None: "find_last_of s c = None \<longleftrightarrow> c \<notin> set s"
  by (induction s) (auto split: option.splits)

lemma find_last_of_Some:
  "find_last_of s c = Some i \<Longrightarrow>
     i < length s \<and> s ! i = c \<and> (\<forall>j. i < j \<and> j < length s \<longrightarrow> s ! j \<noteq> c)"
proof (induction s arbitrary: i)
  case Nil
  then show ?case by simp
next
  case (Cons x xs)
  show ?case
  proof (cases "find_last_of xs c")
    case None
    with Cons.prems have i: "i = 0" and x: "x = c"
      by (auto split: if_splits)
    from None have "c \<notin> set xs" by (simp add: find_last_of_None)
    then have "\<forall>j. 0 < j \<and> j < length (x # xs) \<longrightarrow> (x # xs) ! j \<noteq> c"
      by (auto simp: nth_Cons split: nat.splits)
    with i x show ?thesis by simp
  next
    case (Some k)
    with Cons.prems have i: "i = Suc k" by simp
    from Cons.IH [OF Some] have k: "k < length xs" "xs ! k = c"
      "\<forall>j. k < j \<and> j < length xs \<longrightarrow> xs ! j \<noteq> c" by auto
    have "\<forall>j. Suc k < j \<and> j < length (x # xs) \<longrightarrow> (x # xs) ! j \<noteq> c"
    proof (intro allI impI)
      fix j assume j: "Suc k < j \<and> j < length (x # xs)"
      then obtain j' where "j = Suc j'" by (cases j) auto
      with j k(3) show "(x # xs) ! j \<noteq> c" by simp
    qed
    with i k show ?thesis by simp
  qed
qed

lemma find_last_of_unique:
  assumes "i < length s" "s ! i = c" "\<forall>j. i < j \<and> j < length s \<longrightarrow> s ! j \<noteq> c"
  shows "find_last_of s c = Some i"
proof (cases "find_last_of s c")
  case None
  with assms show ?thesis by (auto simp: find_last_of_None)
next
  case (Some k)
  from find_last_of_Some [OF Some] have k: "k < length s" "s ! k = c"
    "\<forall>j. k < j \<and> j < length s \<longrightarrow> s ! j \<noteq> c" by auto
  from assms k have "\<not> i < k" "\<not> k < i" by auto
  then have "k = i" by simp
  with Some show ?thesis by simp
qed

lemma splitWords_loop_acc:
  assumes "0 < width"
  shows "\<exists>r. \<forall>ss pad. splitWords_loop width padStr ss copy pad = Some (ss @ pad @ r)"
proof (induction copy rule: measure_induct_rule [where f = length])
  case (less copy)
  show ?case
  proof (cases "length copy > width")
    case False
    then have "\<forall>ss pad. splitWords_loop width padStr ss copy pad = Some (ss @ pad @ copy)"
      by (subst splitWords_loop.simps) simp
    then show ?thesis by blast
  next
    case long: True
    show ?thesis
    proof (cases "find_last_of (take width copy) (CHR '' '')")
      case None
      from long assms have "length (drop width copy) < length copy" by simp
      from less.IH [OF this] obtain r where
        r: "\<And>ss pad. splitWords_loop width padStr ss (drop width copy) pad = Some (ss @ pad @ r)"
        by blast
      have "\<forall>ss pad. splitWords_loop width padStr ss copy pad
              = Some (ss @ pad @ (take width copy @ endl @ padStr @ r))"
        using long None by (subst splitWords_loop.simps) (simp add: r)
      then show ?thesis by blast
    next
      case (Some index)
      from long have "length (drop (Suc index) copy) < length copy" by simp
      from less.IH [OF this] obtain r where
        r: "\<And>ss pad. splitWords_loop width padStr ss (drop (Suc index) copy) pad
              = Some (ss @ pad @ r)"
        by blast
      have "\<forall>ss pad. splitWords_loop width padStr ss copy pad
              = Some (ss @ pad @ (take index (take width copy) @ endl @ padStr @ r))"
        using long Some by (subst splitWords_loop.simps) (simp add: r)
      then show ?thesis by blast
    qed
  qed
qed

lemma splitWords_returns: "0 < width \<Longrightarrow> \<exists>r. splitWords val width padStr = Some r"
  using splitWords_loop_acc [of width padStr val] by (auto simp: splitWords_def)

lemma splitWords_loop_splitWords:
  assumes "0 < width"
  shows "splitWords_loop width padStr ss copy pad
           = map_option (\<lambda>r. ss @ pad @ r) (splitWords copy width padStr)"
proof -
  from splitWords_loop_acc [OF assms, of padStr copy] obtain r where
    r: "\<And>ss pad. splitWords_loop width padStr ss copy pad = Some (ss @ pad @ r)"
    by blast
  from r [of "[]" "[]"] have "splitWords copy width padStr = Some r"
    by (simp add: splitWords_def)
  with r [of ss pad] show ?thesis by simp
qed

lemma splitWords_short:
  "length val \<le> width \<Longrightarrow> splitWords val width padStr = Some val"
  unfolding splitWords_def by (subst splitWords_loop.simps) simp

lemma splitWords_hard_break:
  assumes "0 < width" "width < length val" "CHR '' '' \<notin> set (take width val)"
  shows "splitWords val width padStr
           = map_option (\<lambda>r. take width val @ endl @ padStr @ r)
               (splitWords (drop width val) width padStr)"
proof -
  from assms(3) have "find_last_of (take width val) (CHR '' '') = None"
    by (simp add: find_last_of_None)
  with assms(2) have "splitWords val width padStr
      = splitWords_loop width padStr (take width val @ endl) (drop width val) padStr"
    unfolding splitWords_def by (subst splitWords_loop.simps) simp
  then show ?thesis
    by (simp add: splitWords_loop_splitWords [OF assms(1)] option.map_comp comp_def)
qed

lemma splitWords_space_break:
  assumes "0 < width" "width < length val"
    and "index < width" "val ! index = CHR '' ''"
    and "\<forall>j. index < j \<and> j < width \<longrightarrow> val ! j \<noteq> CHR '' ''"
  shows "splitWords val width padStr
           = map_option (\<lambda>r. take index val @ endl @ padStr @ r)
               (splitWords (drop (Suc index) val) width padStr)"
proof -
  have "find_last_of (take width val) (CHR '' '') = Some index"
    using assms by (intro find_last_of_unique) auto
  moreover from assms(3) have "take index (take width val) = take index val"
    by (simp add: min_def)
  ultimately have "splitWords val width padStr
      = splitWords_loop width padStr (take index val @ endl) (drop (Suc index) val) padStr"
    using assms(2) unfolding splitWords_def by (subst splitWords_loop.simps) simp
  then show ?thesis
    by (simp add: splitWords_loop_splitWords [OF assms(1)] option.map_comp comp_def)
qed

lemma splitWords_loop_width0:
  assumes "splitWords_loop w padStr ss copy pad = Some y"
  shows "w = 0 \<longrightarrow> copy = []"
  using assms
proof (induction rule: splitWords_loop.raw_induct [rotated, consumes 1])
  case (1 lp w padStr ss copy pad y)
  show ?case
  proof (intro impI, rule ccontr)
    assume w: "w = 0" and "copy \<noteq> []"
    with 1(2) have "lp 0 padStr (ss @ pad @ endl) copy padStr = Some y"
      by simp
    from 1(1) [OF this] \<open>copy \<noteq> []\<close> show False by simp
  qed
qed

section \<open>The rounds of the parsing loop\<close>

subsection \<open>The slots' loop on a token list\<close>

text \<open>
  With enough tokens after the cursor every slot takes the next token; with fewer, the
  slots take what is there and the first slot without a token is reported.
\<close>

lemma parse_innerArgs_fill:
  assumes "0 \<le> i" "drop (nat (i + 1)) argv = vs @ rest" "length vs = length args"
  shows "parse_innerArgs (int (length argv)) argv i args
           = (i + int (length args), map2 (\<lambda>a v. a\<lparr>mValue := v\<rparr>) args vs, None)"
  using assms
proof (induction args arbitrary: i vs)
  case Nil
  then show ?case by simp
next
  case (Cons a args)
  from Cons.prems(3) obtain v vs' where vs: "vs = v # vs'" and len: "length vs' = length args"
    by (cases vs) auto
  from Cons.prems(2) vs have d: "drop (nat (i + 1)) argv = v # (vs' @ rest)" by simp
  then have lt: "nat (i + 1) < length argv"
    by (metis drop_all linorder_not_less list.distinct(1))
  from d have v: "argv ! nat (i + 1) = v"
    by (metis lt hd_drop_conv_nth list.sel(1))
  from d have "drop (Suc (nat (i + 1))) argv = vs' @ rest"
    by (metis drop_Suc list.sel(3) tl_drop)
  moreover from Cons.prems(1) have "Suc (nat (i + 1)) = nat (i + 1 + 1)" by simp
  ultimately have d': "drop (nat (i + 1 + 1)) argv = vs' @ rest" by simp
  from Cons.prems(1) have "0 \<le> i + 1" by simp
  from Cons.IH [OF this d' len]
  have "parse_innerArgs (int (length argv)) argv (i + 1) args
          = (i + 1 + int (length args), map2 (\<lambda>a v. a\<lparr>mValue := v\<rparr>) args vs', None)" .
  moreover from lt Cons.prems(1) have "\<not> int (length argv) \<le> i + 1" by linarith
  ultimately show ?case using v vs by simp
qed

lemma parse_innerArgs_short:
  assumes "0 \<le> i" "drop (nat (i + 1)) argv = vs" "length vs < length args"
  shows "parse_innerArgs (int (length argv)) argv i args
           = (i + int (length vs),
              map2 (\<lambda>a v. a\<lparr>mValue := v\<rparr>) args vs @ drop (length vs) args,
              Some (args ! length vs))"
  using assms
proof (induction args arbitrary: i vs)
  case Nil
  then show ?case by simp
next
  case (Cons a args)
  show ?case
  proof (cases vs)
    case Nil
    with Cons.prems(2) have "length argv \<le> nat (i + 1)" by simp
    with Cons.prems(1) have "int (length argv) \<le> i + 1" by linarith
    with Nil show ?thesis by simp
  next
    case vs: (Cons v vs')
    with Cons.prems(2) have d: "drop (nat (i + 1)) argv = v # vs'" by simp
    then have lt: "nat (i + 1) < length argv"
      by (metis drop_all linorder_not_less list.distinct(1))
    from d have v: "argv ! nat (i + 1) = v"
      by (metis lt hd_drop_conv_nth list.sel(1))
    from d have "drop (Suc (nat (i + 1))) argv = vs'"
      by (metis drop_Suc list.sel(3) tl_drop)
    moreover from Cons.prems(1) have "Suc (nat (i + 1)) = nat (i + 1 + 1)" by simp
    ultimately have d': "drop (nat (i + 1 + 1)) argv = vs'" by simp
    from Cons.prems(1) have i: "0 \<le> i + 1" by simp
    from Cons.prems(3) vs have len: "length vs' < length args" by simp
    from Cons.IH [OF i d' len]
    have "parse_innerArgs (int (length argv)) argv (i + 1) args
          = (i + 1 + int (length vs'),
             map2 (\<lambda>a v. a\<lparr>mValue := v\<rparr>) args vs' @ drop (length vs') args,
             Some (args ! length vs'))" .
    moreover from lt Cons.prems(1) have "\<not> int (length argv) \<le> i + 1" by linarith
    ultimately show ?thesis using v vs by simp
  qed
qed

subsection \<open>The help string is always composed\<close>





subsection \<open>One round, by the token under the cursor\<close>

lemma nth_cursor: "(pre @ flag # ts) ! nat (int (length pre)) = flag"
  by simp

lemma drop_cursor: "drop (nat (int (length pre) + 1)) (pre @ flag # ts) = ts"
proof -
  have "nat (int (length pre) + 1) = Suc (length pre)" by simp
  then show ?thesis by simp
qed

lemma parse_body_help:
  assumes "flag = ''--help'' \<or> flag = ''-h'' \<or> flag = ''/?''"
  shows "parse_body p argc (pre @ flag # ts) (int (length pre))
           = map_option (\<lambda>help. Return PARSED_HELP p \<lparr>cout = help @ endl, cerr = []\<rparr>)
               (composeHelpString p)"
  using assms unfolding parse_body_def nth_cursor Let_def by presburger

lemma parse_body_unknown:
  assumes "\<not> (flag = ''--help'' \<or> flag = ''-h'' \<or> flag = ''/?'')"
    and "mOptionsMap p flag = None"
  shows "parse_body p argc (pre @ flag # ts) (int (length pre))
           = Some (Return PARSED_FAILED p
               \<lparr>cout = [],
                cerr = ''Invalid argument {'' @ [sq] @ flag @ [sq]
                         @ ''}. Please use --help for more information.'' @ endl\<rparr>)"
  unfolding parse_body_def nth_cursor Let_def by (simp add: assms)

lemma parse_body_match:
  assumes "\<not> (flag = ''--help'' \<or> flag = ''-h'' \<or> flag = ''/?'')"
    and "mOptionsMap p flag = Some ref"
    and "length vs = length (mArgsRef (mOptionRefs p ! ref))"
  shows "parse_body p (int (length (pre @ flag # vs @ rest))) (pre @ flag # vs @ rest)
             (int (length pre))
           = (let opt = mOptionRefs p ! ref;
                  opt' = opt\<lparr>mArgsRef := map2 (\<lambda>a v. a\<lparr>mValue := v\<rparr>) (mArgsRef opt) vs\<rparr>
              in if validator_rejects opt'
                 then Some (Return PARSED_FAILED_VALIDATOR
                        (p\<lparr>mOptionRefs := (mOptionRefs p)[ref := opt']\<rparr>) silent)
                 else Some (Continue
                        (p\<lparr>mOptionRefs := (mOptionRefs p)[ref := opt'\<lparr>mProvided := True\<rparr>]\<rparr>)
                        (int (length pre) + int (length vs))))"
proof -
  have "parse_innerArgs (int (length (pre @ flag # vs @ rest))) (pre @ flag # vs @ rest)
          (int (length pre)) (mArgsRef (mOptionRefs p ! ref))
        = (int (length pre) + int (length (mArgsRef (mOptionRefs p ! ref))),
           map2 (\<lambda>a v. a\<lparr>mValue := v\<rparr>) (mArgsRef (mOptionRefs p ! ref)) vs, None)"
    using parse_innerArgs_fill [of "int (length pre)" "pre @ flag # vs @ rest" vs rest
        "mArgsRef (mOptionRefs p ! ref)"] assms(3)
    by (simp only: drop_cursor)
  then show ?thesis
    unfolding parse_body_def nth_cursor Let_def by (simp add: assms)
qed

lemma parse_body_missing:
  assumes "\<not> (flag = ''--help'' \<or> flag = ''-h'' \<or> flag = ''/?'')"
    and "mOptionsMap p flag = Some ref"
    and "length vs < length (mArgsRef (mOptionRefs p ! ref))"
  shows "parse_body p (int (length (pre @ flag # vs))) (pre @ flag # vs) (int (length pre))
           = (let opt = mOptionRefs p ! ref;
                  opt' = opt\<lparr>mArgsRef := map2 (\<lambda>a v. a\<lparr>mValue := v\<rparr>) (mArgsRef opt) vs
                                             @ drop (length vs) (mArgsRef opt)\<rparr>
              in Some (Return PARSED_FAILED
                   (p\<lparr>mOptionRefs := (mOptionRefs p)[ref := opt']\<rparr>)
                   \<lparr>cout = [],
                    cerr = ''Missing argument {'' @ [sq]
                             @ mId (mArgsRef opt ! length vs) @ [sq]
                             @ ''} for parameter '' @ [sq] @ flag @ [sq]
                             @ ''. Please use --help for more information.'' @ endl\<rparr>))"
proof -
  have "parse_innerArgs (int (length (pre @ flag # vs))) (pre @ flag # vs)
          (int (length pre)) (mArgsRef (mOptionRefs p ! ref))
        = (int (length pre) + int (length vs),
           map2 (\<lambda>a v. a\<lparr>mValue := v\<rparr>) (mArgsRef (mOptionRefs p ! ref)) vs
             @ drop (length vs) (mArgsRef (mOptionRefs p ! ref)),
           Some (mArgsRef (mOptionRefs p ! ref) ! length vs))"
    using parse_innerArgs_short [of "int (length pre)" "pre @ flag # vs" vs
        "mArgsRef (mOptionRefs p ! ref)"] assms(3)
    by (simp only: drop_cursor)
  then show ?thesis
    unfolding parse_body_def nth_cursor Let_def by (simp add: assms)
qed

subsection \<open>What parsing never changes\<close>





subsection \<open>Unfolding the loop\<close>

lemma parse_loop_end:
  "\<not> i < argc \<Longrightarrow> parse_loop p argc argv i = Some (None, p, silent)"
  by (simp add: parse_loop.simps)

lemma parse_loop_None:
  "i < argc \<Longrightarrow> parse_body p argc argv i = None \<Longrightarrow> parse_loop p argc argv i = None"
  by (simp add: parse_loop.simps)

lemma parse_loop_Return:
  "i < argc \<Longrightarrow> parse_body p argc argv i = Some (Return r p' out) \<Longrightarrow>
     parse_loop p argc argv i = Some (Some r, p', out)"
  by (simp add: parse_loop.simps)

lemma parse_loop_Continue:
  "i < argc \<Longrightarrow> parse_body p argc argv i = Some (Continue p' i') \<Longrightarrow>
     parse_loop p argc argv i = parse_loop p' argc argv (i' + 1)"
  by (simp add: parse_loop.simps)

subsection \<open>Element 0 is not read\<close>

lemma parse_innerArgs_argv0:
  "0 \<le> i \<Longrightarrow> parse_innerArgs argc (a # ts) i args = parse_innerArgs argc (b # ts) i args"
proof (induction args arbitrary: i)
  case Nil
  show ?case by simp
next
  case (Cons x args)
  from Cons.prems have "nat (i + 1) = Suc (nat i)" by simp
  then have "(a # ts) ! nat (i + 1) = (b # ts) ! nat (i + 1)" by simp
  moreover from Cons.prems have "0 \<le> i + 1" by simp
  then have "parse_innerArgs argc (a # ts) (i + 1) args = parse_innerArgs argc (b # ts) (i + 1) args"
    by (rule Cons.IH)
  ultimately show ?case by simp
qed

lemma parse_body_argv0:
  assumes "1 \<le> i"
  shows "parse_body p argc (a # ts) i = parse_body p argc (b # ts) i"
proof -
  from assms have "nat i = Suc (nat (i - 1))" by simp
  then have arg: "(a # ts) ! nat i = (b # ts) ! nat i" by simp
  from assms have inner: "\<And>args. parse_innerArgs argc (a # ts) i args
      = parse_innerArgs argc (b # ts) i args"
    by (intro parse_innerArgs_argv0) simp
  show ?thesis unfolding parse_body_def arg inner by (rule refl)
qed

lemma parse_loop_argv0:
  "1 \<le> i \<Longrightarrow> parse_loop p argc (a # ts) i = parse_loop p argc (b # ts) i"
proof (induction p argc "a # ts" i rule: parse_loop.induct)
  case (1 p argc i)
  note body = parse_body_argv0 [OF "1.prems", of p argc a ts b]
  show ?case
  proof (cases "i < argc")
    case False
    then show ?thesis by (simp add: parse_loop_end)
  next
    case True
    show ?thesis
    proof (cases "parse_body p argc (a # ts) i")
      case None
      with True body show ?thesis by (simp add: parse_loop_None)
    next
      case (Some s)
      show ?thesis
      proof (cases s)
        case (Return r q out)
        with True Some body show ?thesis by (simp add: parse_loop_Return)
      next
        case (Continue q j)
        from Some Continue have "i \<le> j" by (auto dest: parse_body_Continue_cursor)
        with "1.prems" have "1 \<le> j + 1" by simp
        from "1.hyps" [OF True Some Continue this]
        have "parse_loop q argc (a # ts) (j + 1) = parse_loop q argc (b # ts) (j + 1)" .
        with True Some Continue body show ?thesis by (simp add: parse_loop_Continue)
      qed
    qed
  qed
qed

subsection \<open>The cursor's origin\<close>

text \<open>
  The loop looks at the tokens from the cursor on and nowhere else: with other elements
  in front of them, and the cursor moved accordingly, it runs the same way.
\<close>

lemma parse_innerArgs_shift:
  "0 \<le> i \<Longrightarrow>
     parse_innerArgs (int (length (xs @ ys))) (xs @ ys) (int (length xs) + i) args
       = (case parse_innerArgs (int (length ys)) ys i args of
            (j, as, m) \<Rightarrow> (int (length xs) + j, as, m))"
proof (induction args arbitrary: i)
  case Nil
  show ?case by simp
next
  case (Cons a args)
  from Cons.prems have n: "nat (int (length xs) + i + 1) = length xs + nat (i + 1)"
    by (simp add: nat_add_distrib)
  have arg: "(xs @ ys) ! nat (int (length xs) + i + 1) = ys ! nat (i + 1)"
    unfolding n by (simp add: nth_append)
  from Cons.prems have "0 \<le> i + 1" by simp
  from Cons.IH [OF this]
  have ih: "parse_innerArgs (int (length (xs @ ys))) (xs @ ys) (int (length xs) + i + 1) args
       = (case parse_innerArgs (int (length ys)) ys (i + 1) args of
            (j, as, m) \<Rightarrow> (int (length xs) + j, as, m))"
    by (simp add: add.assoc)
  show ?case
  proof (cases "i + 1 \<ge> int (length ys)")
    case True
    then show ?thesis by simp
  next
    case False
    obtain j as m where r: "parse_innerArgs (int (length ys)) ys (i + 1) args = (j, as, m)"
      by (cases "parse_innerArgs (int (length ys)) ys (i + 1) args") auto
    from False have "\<not> int (length (xs @ ys)) \<le> int (length xs) + i + 1" by simp
    with False r ih arg show ?thesis by (simp add: add.assoc)
  qed
qed

lemma parse_body_shift:
  assumes "0 \<le> i"
  shows "parse_body q (int (length (xs @ ys))) (xs @ ys) (int (length xs) + i)
           = map_option (shift_step (int (length xs))) (parse_body q (int (length ys)) ys i)"
proof -
  from assms have "nat (int (length xs) + i) = length xs + nat i"
    by (simp add: nat_add_distrib)
  then have arg: "(xs @ ys) ! nat (int (length xs) + i) = ys ! nat i"
    by (simp add: nth_append)
  note inner = parse_innerArgs_shift [OF assms, of xs ys]
  show ?thesis
  proof (cases "ys ! nat i = ''--help'' \<or> ys ! nat i = ''-h'' \<or> ys ! nat i = ''/?''")
    case True
    then show ?thesis
      unfolding parse_body_def arg Let_def by (cases "composeHelpString q") auto
  next
    case nohelp: False
    show ?thesis
    proof (cases "mOptionsMap q (ys ! nat i)")
      case None
      with nohelp show ?thesis unfolding parse_body_def arg Let_def by simp
    next
      case (Some ref)
      obtain j as m where
        r: "parse_innerArgs (int (length ys)) ys i (mArgsRef (mOptionRefs q ! ref)) = (j, as, m)"
        by (cases "parse_innerArgs (int (length ys)) ys i (mArgsRef (mOptionRefs q ! ref))") auto
      with inner [of "mArgsRef (mOptionRefs q ! ref)"]
      have r': "parse_innerArgs (int (length (xs @ ys))) (xs @ ys) (int (length xs) + i)
                  (mArgsRef (mOptionRefs q ! ref)) = (int (length xs) + j, as, m)"
        by simp
      show ?thesis
        unfolding parse_body_def arg Let_def using nohelp Some
        by (simp only: r r' if_False option.case prod.case) (cases m; simp)
    qed
  qed
qed

lemma parse_loop_shift:
  "0 \<le> i \<Longrightarrow>
     parse_loop q (int (length (xs @ ys))) (xs @ ys) (int (length xs) + i)
       = parse_loop q (int (length ys)) ys i"
proof (induction q "int (length ys)" ys i rule: parse_loop.induct)
  case (1 q ys i)
  note body = parse_body_shift [OF "1.prems", of q xs ys]
  have lt: "int (length xs) + i < int (length (xs @ ys)) \<longleftrightarrow> i < int (length ys)"
    by simp
  show ?case
  proof (cases "i < int (length ys)")
    case False
    with lt show ?thesis by (simp add: parse_loop_end)
  next
    case True
    with lt have True': "int (length xs) + i < int (length (xs @ ys))" by simp
    show ?thesis
    proof (cases "parse_body q (int (length ys)) ys i")
      case None
      with body have "parse_body q (int (length (xs @ ys))) (xs @ ys) (int (length xs) + i) = None"
        by simp
      with True True' None show ?thesis by (simp add: parse_loop_None)
    next
      case (Some s)
      show ?thesis
      proof (cases s)
        case (Return r q' out)
        with Some body
        have "parse_body q (int (length (xs @ ys))) (xs @ ys) (int (length xs) + i)
                = Some (Return r q' out)" by simp
        with True True' Some Return show ?thesis by (simp add: parse_loop_Return)
      next
        case (Continue q' j)
        with Some body
        have b: "parse_body q (int (length (xs @ ys))) (xs @ ys) (int (length xs) + i)
                = Some (Continue q' (int (length xs) + j))" by simp
        from Some Continue have "i \<le> j" by (auto dest: parse_body_Continue_cursor)
        with "1.prems" have "0 \<le> j + 1" by simp
        from "1.hyps" [OF True Some Continue this]
        have "parse_loop q' (int (length (xs @ ys))) (xs @ ys) (int (length xs) + (j + 1))
                = parse_loop q' (int (length ys)) ys (j + 1)" .
        moreover have "parse_loop q (int (length (xs @ ys))) (xs @ ys) (int (length xs) + i)
                = parse_loop q' (int (length (xs @ ys))) (xs @ ys) (int (length xs) + j + 1)"
          using True' b by (rule parse_loop_Continue)
        moreover have "parse_loop q (int (length ys)) ys i = parse_loop q' (int (length ys)) ys (j + 1)"
          using True Some Continue by (simp add: parse_loop_Continue)
        ultimately show ?thesis by (simp add: add.assoc)
      qed
    qed
  qed
qed

lemma parse_loop_rebase:
  "parse_loop q (int (length (xs @ ys))) (xs @ ys) (int (length xs))
     = parse_loop q (int (length (prog # ys))) (prog # ys) 1"
proof -
  have "parse_loop q (int (length (xs @ ys))) (xs @ ys) (int (length xs) + 0)
          = parse_loop q (int (length ys)) ys 0"
    by (rule parse_loop_shift) simp
  moreover have "parse_loop q (int (length ([prog] @ ys))) ([prog] @ ys) (int (length [prog]) + 0)
          = parse_loop q (int (length ys)) ys 0"
    by (rule parse_loop_shift) simp
  ultimately show ?thesis by simp
qed

subsection \<open>Tokens that are scanned to the end\<close>

lemma parse_innerArgs_extend:
  assumes "parse_innerArgs (int (length xs)) xs i args = (j, as, None)"
    and "0 \<le> i" "i < int (length xs)"
  shows "parse_innerArgs (int (length (xs @ ys))) (xs @ ys) i args = (j, as, None)
           \<and> j < int (length xs)"
  using assms
proof (induction args arbitrary: i j as)
  case Nil
  then show ?case by simp
next
  case (Cons a args)
  from Cons.prems(1) have lt: "i + 1 < int (length xs)"
    by (cases "int (length xs) \<le> i + 1") auto
  obtain j' as' m where
    r: "parse_innerArgs (int (length xs)) xs (i + 1) args = (j', as', m)"
    by (cases "parse_innerArgs (int (length xs)) xs (i + 1) args") auto
  with Cons.prems(1) lt have m: "m = None" and j: "j = j'"
    and as: "as = a\<lparr>mValue := xs ! nat (i + 1)\<rparr> # as'"
    by auto
  from Cons.prems(2) have "0 \<le> i + 1" by simp
  from Cons.IH [OF r [unfolded m] this lt]
  have ih: "parse_innerArgs (int (length (xs @ ys))) (xs @ ys) (i + 1) args = (j', as', None)"
    and j': "j' < int (length xs)" by simp_all
  from lt Cons.prems(2) have "nat (i + 1) < length xs" by linarith
  then have "(xs @ ys) ! nat (i + 1) = xs ! nat (i + 1)" by (simp add: nth_append)
  moreover from lt have "\<not> int (length (xs @ ys)) \<le> i + 1" by simp
  ultimately show ?case using ih j' j as by simp
qed

lemma parse_body_extend:
  assumes "parse_body p (int (length xs)) xs i = Some (Continue p' j)"
    and "0 \<le> i" "i < int (length xs)"
  shows "parse_body p (int (length (xs @ ys))) (xs @ ys) i = Some (Continue p' j)
           \<and> j < int (length xs)"
proof -
  from assms(2,3) have "nat i < length xs" by linarith
  then have arg: "(xs @ ys) ! nat i = xs ! nat i" by (simp add: nth_append)
  from assms(1) have nohelp: "\<not> (xs ! nat i = ''--help'' \<or> xs ! nat i = ''-h'' \<or> xs ! nat i = ''/?'')"
    unfolding parse_body_def Let_def by (auto split: if_splits)
  with assms(1) obtain ref where ref: "mOptionsMap p (xs ! nat i) = Some ref"
    unfolding parse_body_def Let_def by (cases "mOptionsMap p (xs ! nat i)") auto
  obtain k as m where
    r: "parse_innerArgs (int (length xs)) xs i (mArgsRef (mOptionRefs p ! ref)) = (k, as, m)"
    by (cases "parse_innerArgs (int (length xs)) xs i (mArgsRef (mOptionRefs p ! ref))") auto
  from assms(1) nohelp ref r have m: "m = None"
    unfolding parse_body_def Let_def by (cases m) auto
  from parse_innerArgs_extend [OF r [unfolded m] assms(2,3), of ys]
  have r': "parse_innerArgs (int (length (xs @ ys))) (xs @ ys) i (mArgsRef (mOptionRefs p ! ref))
              = (k, as, None)" and k: "k < int (length xs)" by simp_all
  from assms(1) nohelp ref r m have kj: "k = j"
    unfolding parse_body_def Let_def by (auto split: if_splits)
  have "parse_body p (int (length (xs @ ys))) (xs @ ys) i = parse_body p (int (length xs)) xs i"
    unfolding parse_body_def arg Let_def using nohelp ref
    by (simp only: r r' m if_False option.case prod.case)
  with assms(1) k kj show ?thesis by simp
qed

lemma parse_loop_prefix:
  assumes "parse_loop p (int (length xs)) xs i = Some (None, p1, out)"
    and "0 \<le> i" "i \<le> int (length xs)"
  shows "parse_loop p (int (length (xs @ ys))) (xs @ ys) i
           = parse_loop p1 (int (length (xs @ ys))) (xs @ ys) (int (length xs))"
  using assms
proof (induction p "int (length xs)" xs i rule: parse_loop.induct)
  case (1 p xs i)
  show ?case
  proof (cases "i < int (length xs)")
    case False
    with "1.prems" have "i = int (length xs)" and "p1 = p"
      by (simp_all add: parse_loop_end)
    then show ?thesis by simp
  next
    case True
    show ?thesis
    proof (cases "parse_body p (int (length xs)) xs i")
      case None
      with True "1.prems"(1) show ?thesis by (simp add: parse_loop_None)
    next
      case (Some s)
      show ?thesis
      proof (cases s)
        case (Return r q o')
        with True Some "1.prems"(1) show ?thesis by (simp add: parse_loop_Return)
      next
        case (Continue q j)
        from Some Continue have b: "parse_body p (int (length xs)) xs i = Some (Continue q j)"
          by simp
        from parse_body_extend [OF b "1.prems"(2) True, of ys]
        have b': "parse_body p (int (length (xs @ ys))) (xs @ ys) i = Some (Continue q j)"
          and j: "j < int (length xs)" by simp_all
        from b have "i \<le> j" by (rule parse_body_Continue_cursor)
        with "1.prems"(2) have j0: "0 \<le> j + 1" by simp
        from j have j1: "j + 1 \<le> int (length xs)" by simp
        from True b "1.prems"(1)
        have "parse_loop q (int (length xs)) xs (j + 1) = Some (None, p1, out)"
          by (simp add: parse_loop_Continue)
        from "1.hyps" [OF True Some Continue this j0 j1]
        have "parse_loop q (int (length (xs @ ys))) (xs @ ys) (j + 1)
                = parse_loop p1 (int (length (xs @ ys))) (xs @ ys) (int (length xs))" .
        moreover from True have "i < int (length (xs @ ys))" by simp
        then have "parse_loop p (int (length (xs @ ys))) (xs @ ys) i
                = parse_loop q (int (length (xs @ ys))) (xs @ ys) (j + 1)"
          using b' by (rule parse_loop_Continue)
        ultimately show ?thesis by simp
      qed
    qed
  qed
qed

text \<open>
  Tokens that are scanned to the end on their own are scanned the same way at the head
  of a longer vector, and what follows them is then parsed as a vector of its own, from
  the parser they left.
\<close>

lemma parse_loop_after_prefix:
  assumes "parse_loop p (int (length (prog # pre))) (prog # pre) 1 = Some (None, p1, out)"
  shows "parse_loop p (int (length (prog # pre @ rest))) (prog # pre @ rest) 1
           = parse_loop p1 (int (length (prog # rest))) (prog # rest) 1"
proof -
  have "parse_loop p (int (length ((prog # pre) @ rest))) ((prog # pre) @ rest) 1
          = parse_loop p1 (int (length ((prog # pre) @ rest))) ((prog # pre) @ rest)
              (int (length (prog # pre)))"
    using assms by (rule parse_loop_prefix) simp_all
  also have "\<dots> = parse_loop p1 (int (length (prog # rest))) (prog # rest) 1"
    by (rule parse_loop_rebase)
  finally show ?thesis by simp
qed

lemma parse_after_prefix:
  assumes "parse_loop p (int (length (prog # pre))) (prog # pre) 1 = Some (None, p1, out)"
  shows "parse p (int (length (prog # pre @ rest))) (prog # pre @ rest)
           = parse p1 (int (length (prog # rest))) (prog # rest)"
  unfolding parse_def parse_loop_after_prefix [OF assms] by (rule refl)

subsection \<open>The first token\<close>

lemma parse_loop_head_help:
  assumes "flag = ''--help'' \<or> flag = ''-h'' \<or> flag = ''/?''"
  shows "parse_loop p (int (length (prog # flag # rest))) (prog # flag # rest) 1
           = map_option (\<lambda>help. (Some PARSED_HELP, p, \<lparr>cout = help @ endl, cerr = []\<rparr>))
               (composeHelpString p)"
proof -
  have lt: "(1::int) < int (length (prog # flag # rest))" by simp
  from parse_body_help [OF assms, of p "int (length (prog # flag # rest))" "[prog]" rest]
  have b: "parse_body p (int (length (prog # flag # rest))) (prog # flag # rest) 1
       = map_option (\<lambda>help. Return PARSED_HELP p \<lparr>cout = help @ endl, cerr = []\<rparr>)
               (composeHelpString p)" by simp
  show ?thesis
  proof (cases "composeHelpString p")
    case None
    with b lt show ?thesis by (simp add: parse_loop_None)
  next
    case (Some h)
    with b lt show ?thesis by (simp add: parse_loop_Return)
  qed
qed

lemma parse_loop_head_unknown:
  assumes "\<not> (flag = ''--help'' \<or> flag = ''-h'' \<or> flag = ''/?'')"
    and "mOptionsMap p flag = None"
  shows "parse_loop p (int (length (prog # flag # rest))) (prog # flag # rest) 1
           = Some (Some PARSED_FAILED, p,
               \<lparr>cout = [],
                cerr = ''Invalid argument {'' @ [sq] @ flag @ [sq]
                         @ ''}. Please use --help for more information.'' @ endl\<rparr>)"
proof -
  have lt: "(1::int) < int (length (prog # flag # rest))" by simp
  from parse_body_unknown [OF assms, of "int (length (prog # flag # rest))" "[prog]" rest]
  have "parse_body p (int (length (prog # flag # rest))) (prog # flag # rest) 1
       = Some (Return PARSED_FAILED p
               \<lparr>cout = [],
                cerr = ''Invalid argument {'' @ [sq] @ flag @ [sq]
                         @ ''}. Please use --help for more information.'' @ endl\<rparr>)" by simp
  with lt show ?thesis by (rule parse_loop_Return)
qed

lemma parse_loop_head_missing:
  assumes "\<not> (flag = ''--help'' \<or> flag = ''-h'' \<or> flag = ''/?'')"
    and "mOptionsMap p flag = Some ref"
    and "length vs < length (mArgsRef (mOptionRefs p ! ref))"
  shows "parse_loop p (int (length (prog # flag # vs))) (prog # flag # vs) 1
           = Some (Some PARSED_FAILED,
                p\<lparr>mOptionRefs := (mOptionRefs p)
                    [ref := (mOptionRefs p ! ref)
                       \<lparr>mArgsRef := map2 (\<lambda>a v. a\<lparr>mValue := v\<rparr>) (mArgsRef (mOptionRefs p ! ref)) vs
                                     @ drop (length vs) (mArgsRef (mOptionRefs p ! ref))\<rparr>]\<rparr>,
                \<lparr>cout = [],
                 cerr = ''Missing argument {'' @ [sq]
                          @ mId (mArgsRef (mOptionRefs p ! ref) ! length vs) @ [sq]
                          @ ''} for parameter '' @ [sq] @ flag @ [sq]
                          @ ''. Please use --help for more information.'' @ endl\<rparr>)"
proof -
  have lt: "(1::int) < int (length (prog # flag # vs))" by simp
  from parse_body_missing [OF assms, of "[prog]"]
  have "parse_body p (int (length (prog # flag # vs))) (prog # flag # vs) 1
       = Some (Return PARSED_FAILED
                (p\<lparr>mOptionRefs := (mOptionRefs p)
                    [ref := (mOptionRefs p ! ref)
                       \<lparr>mArgsRef := map2 (\<lambda>a v. a\<lparr>mValue := v\<rparr>) (mArgsRef (mOptionRefs p ! ref)) vs
                                     @ drop (length vs) (mArgsRef (mOptionRefs p ! ref))\<rparr>]\<rparr>)
                \<lparr>cout = [],
                 cerr = ''Missing argument {'' @ [sq]
                          @ mId (mArgsRef (mOptionRefs p ! ref) ! length vs) @ [sq]
                          @ ''} for parameter '' @ [sq] @ flag @ [sq]
                          @ ''. Please use --help for more information.'' @ endl\<rparr>)"
    by (simp add: Let_def)
  with lt show ?thesis by (rule parse_loop_Return)
qed

lemma parse_loop_head_match:
  assumes "\<not> (flag = ''--help'' \<or> flag = ''-h'' \<or> flag = ''/?'')"
    and "mOptionsMap p flag = Some ref"
    and "length vs = length (mArgsRef (mOptionRefs p ! ref))"
    and "opt' = (mOptionRefs p ! ref)
           \<lparr>mArgsRef := map2 (\<lambda>a v. a\<lparr>mValue := v\<rparr>) (mArgsRef (mOptionRefs p ! ref)) vs\<rparr>"
  shows "parse_loop p (int (length (prog # flag # vs @ rest))) (prog # flag # vs @ rest) 1
           = (if validator_rejects opt'
              then Some (Some PARSED_FAILED_VALIDATOR,
                     p\<lparr>mOptionRefs := (mOptionRefs p)[ref := opt']\<rparr>, silent)
              else parse_loop (p\<lparr>mOptionRefs := (mOptionRefs p)[ref := opt'\<lparr>mProvided := True\<rparr>]\<rparr>)
                     (int (length (prog # rest))) (prog # rest) 1)"
proof -
  have lt: "(1::int) < int (length (prog # flag # vs @ rest))" by simp
  from parse_body_match [OF assms(1-3), of "[prog]" rest] assms(4)
  have b: "parse_body p (int (length (prog # flag # vs @ rest))) (prog # flag # vs @ rest) 1
      = (if validator_rejects opt'
         then Some (Return PARSED_FAILED_VALIDATOR
                (p\<lparr>mOptionRefs := (mOptionRefs p)[ref := opt']\<rparr>) silent)
         else Some (Continue
                (p\<lparr>mOptionRefs := (mOptionRefs p)[ref := opt'\<lparr>mProvided := True\<rparr>]\<rparr>)
                (1 + int (length vs))))"
    by (simp add: Let_def)
  show ?thesis
  proof (cases "validator_rejects opt'")
    case True
    with b lt show ?thesis by (simp add: parse_loop_Return)
  next
    case False
    let ?q = "p\<lparr>mOptionRefs := (mOptionRefs p)[ref := opt'\<lparr>mProvided := True\<rparr>]\<rparr>"
    from False b have "parse_body p (int (length (prog # flag # vs @ rest)))
        (prog # flag # vs @ rest) 1 = Some (Continue ?q (1 + int (length vs)))" by simp
    with lt have "parse_loop p (int (length (prog # flag # vs @ rest))) (prog # flag # vs @ rest) 1
        = parse_loop ?q (int (length (prog # flag # vs @ rest))) (prog # flag # vs @ rest)
            (1 + int (length vs) + 1)"
      by (rule parse_loop_Continue)
    also have "\<dots> = parse_loop ?q (int (length ((prog # flag # vs) @ rest)))
        ((prog # flag # vs) @ rest) (int (length (prog # flag # vs)))"
      by (simp add: add.commute)
    also have "\<dots> = parse_loop ?q (int (length (prog # rest))) (prog # rest) 1"
      by (rule parse_loop_rebase)
    finally show ?thesis using False by simp
  qed
qed

lemma parse_loop_head_end:
  "parse_loop p (int (length [prog])) [prog] 1 = Some (None, p, silent)"
  by (rule parse_loop_end) simp

subsection \<open>The mandatory options\<close>

lemma parse_mandatory_ok:
  "\<forall>opt \<in> set opts. \<not> mMandatory opt \<or> mProvided opt \<Longrightarrow>
     parse_mandatory opts = (PARSED_OK, silent)"
  by (induction opts) (simp_all add: checkMandatory_def)

lemma parse_mandatory_first:
  assumes "\<forall>b \<in> set before. \<not> mMandatory b \<or> mProvided b"
    and "mMandatory opt" "\<not> mProvided opt"
  shows "parse_mandatory (before @ opt # after)
           = (PARSED_FAILED,
              \<lparr>cout = [],
               cerr = ''Mandatory parameter {'' @ [sq] @ hd (mOpts opt) @ [sq]
                        @ ''} not provided. Please use --help for more information.''
                        @ endl\<rparr>)"
  using assms by (induction before) (simp_all add: checkMandatory_def)

subsection \<open>The sample registry\<close>

lemma sample_parser_simps:
  "mOptionRefs sample_parser = [sample_version, sample_mandatory]"
  "mOptionsMap sample_parser ''-v'' = Some 0"
  "mOptionsMap sample_parser ''--version'' = Some 0"
  "mOptionsMap sample_parser ''--mandatory'' = Some 1"
  by (simp_all add: sample_parser_def addOptions_def addOption_def Parser_init_def
      sample_version_def sample_mandatory_def Option_init_def)

lemma sample_option_simps:
  "mArgsRef sample_version = []"
  "mValidator sample_version = Some (\<lambda>opt. True)"
  "mMandatory sample_version = False"
  "mProvided sample_version = False"
  "mArgsRef sample_mandatory
     = [Argument_init ''arg1'' ''The argument 1.'', Argument_init ''arg2'' ''The argument 2.'']"
  "mValidator sample_mandatory = None"
  "mMandatory sample_mandatory = True"
  "mProvided sample_mandatory = False"
  "mOpts sample_mandatory = [''--mandatory'']"
  by (simp_all add: sample_version_def sample_mandatory_def Option_init_def)

lemma sample_scan_v:
  "parse_loop sample_parser (int (length [''prog'', ''-v''])) [''prog'', ''-v''] 1
     = Some (None,
         sample_parser\<lparr>mOptionRefs := [sample_version\<lparr>mProvided := True\<rparr>, sample_mandatory]\<rparr>,
         silent)"
proof -
  have "parse_loop sample_parser (int (length (''prog'' # ''-v'' # [] @ []))) (''prog'' # ''-v'' # [] @ []) 1
          = parse_loop
              (sample_parser\<lparr>mOptionRefs := (mOptionRefs sample_parser)
                 [0 := (mOptionRefs sample_parser ! 0)
                    \<lparr>mArgsRef := map2 (\<lambda>a v. a\<lparr>mValue := v\<rparr>) (mArgsRef (mOptionRefs sample_parser ! 0)) [],
                     mProvided := True\<rparr>]\<rparr>)
              (int (length [''prog''])) [''prog''] 1"
    by (subst parse_loop_head_match [where ref = 0, OF _ _ _ refl])
      (simp_all add: sample_parser_simps sample_option_simps validator_rejects_def)
  also have "\<dots> = Some (None,
      sample_parser\<lparr>mOptionRefs := (mOptionRefs sample_parser)
                 [0 := (mOptionRefs sample_parser ! 0)
                    \<lparr>mArgsRef := map2 (\<lambda>a v. a\<lparr>mValue := v\<rparr>) (mArgsRef (mOptionRefs sample_parser ! 0)) [],
                     mProvided := True\<rparr>]\<rparr>, silent)"
    by (rule parse_loop_head_end)
  finally show ?thesis
    by (simp add: sample_parser_simps sample_option_simps)
qed

lemma sample_scan_mandatory:
  "parse_loop sample_parser (int (length [''prog'', ''--mandatory'', ''X'', ''Y'']))
       [''prog'', ''--mandatory'', ''X'', ''Y''] 1
     = Some (None,
         sample_parser\<lparr>mOptionRefs :=
           [sample_version,
            sample_mandatory
              \<lparr>mArgsRef := [Argument_init ''arg1'' ''The argument 1.''\<lparr>mValue := ''X''\<rparr>,
                            Argument_init ''arg2'' ''The argument 2.''\<lparr>mValue := ''Y''\<rparr>],
               mProvided := True\<rparr>]\<rparr>,
         silent)"
proof -
  have "parse_loop sample_parser (int (length (''prog'' # ''--mandatory'' # [''X'', ''Y''] @ [])))
            (''prog'' # ''--mandatory'' # [''X'', ''Y''] @ []) 1
          = parse_loop
              (sample_parser\<lparr>mOptionRefs := (mOptionRefs sample_parser)
                 [1 := (mOptionRefs sample_parser ! 1)
                    \<lparr>mArgsRef := map2 (\<lambda>a v. a\<lparr>mValue := v\<rparr>)
                                   (mArgsRef (mOptionRefs sample_parser ! 1)) [''X'', ''Y''],
                     mProvided := True\<rparr>]\<rparr>)
              (int (length [''prog''])) [''prog''] 1"
    by (subst parse_loop_head_match [where ref = 1, OF _ _ _ refl])
      (simp_all add: sample_parser_simps sample_option_simps validator_rejects_def)
  also have "\<dots> = Some (None,
      sample_parser\<lparr>mOptionRefs := (mOptionRefs sample_parser)
                 [1 := (mOptionRefs sample_parser ! 1)
                    \<lparr>mArgsRef := map2 (\<lambda>a v. a\<lparr>mValue := v\<rparr>)
                                   (mArgsRef (mOptionRefs sample_parser ! 1)) [''X'', ''Y''],
                     mProvided := True\<rparr>]\<rparr>, silent)"
    by (rule parse_loop_head_end)
  finally show ?thesis
    by (simp add: sample_parser_simps sample_option_simps)
qed

subsection \<open>Provided flags and the fields that stay\<close>

lemma map2_mValue:
  "length vs = length args \<Longrightarrow> map mValue (map2 (\<lambda>a v. a\<lparr>mValue := v\<rparr>) args vs) = vs"
  by (induction args vs rule: list_induct2') simp_all

lemma map2_mId:
  "length vs = length args \<Longrightarrow> map mId (map2 (\<lambda>a v. a\<lparr>mValue := v\<rparr>) args vs) = map mId args"
  by (induction args vs rule: list_induct2') simp_all





subsection \<open>A validator that looks at the slot\<close>

lemma picky_simps:
  "mOptionRefs picky_parser = [picky_option]"
  "mOptionsMap picky_parser ''-x'' = Some 0"
  "mArgsRef picky_option = [Argument_init ''n'' []]"
  "mValidator picky_option = Some (\<lambda>opt. Option_value opt ''n'' = Inr ''ok'')"
  "mArgsMap picky_option ''n'' = Some 0"
  "mProvided picky_option = False"
  "mMandatory picky_option = False"
  by (simp_all add: picky_parser_def picky_option_def addOption_def Parser_init_def
      Option_init_def Argument_init_def)

lemma picky_accepts:
  "validator_rejects (picky_option\<lparr>mArgsRef := [Argument_init ''n'' []\<lparr>mValue := v\<rparr>]\<rparr>)
     \<longleftrightarrow> v \<noteq> ''ok''"
  "validator_rejects
     (picky_option\<lparr>mArgsRef := [Argument_init ''n'' []\<lparr>mValue := v\<rparr>], mProvided := b\<rparr>)
     \<longleftrightarrow> v \<noteq> ''ok''"
  "validator_rejects
     (picky_option\<lparr>mProvided := b, mArgsRef := [Argument_init ''n'' []\<lparr>mValue := v\<rparr>]\<rparr>)
     \<longleftrightarrow> v \<noteq> ''ok''"
  by (simp_all add: validator_rejects_def picky_simps OptionData.truncate_def Option_value_def)

lemma picky_scan_ok:
  "parse_loop picky_parser (int (length [''prog'', ''-x'', ''ok''])) [''prog'', ''-x'', ''ok''] 1
     = Some (None,
         picky_parser\<lparr>mOptionRefs :=
           [picky_option\<lparr>mArgsRef := [Argument_init ''n'' []\<lparr>mValue := ''ok''\<rparr>],
                         mProvided := True\<rparr>]\<rparr>,
         silent)"
proof -
  have "parse_loop picky_parser (int (length (''prog'' # ''-x'' # [''ok''] @ [])))
            (''prog'' # ''-x'' # [''ok''] @ []) 1
          = parse_loop
              (picky_parser\<lparr>mOptionRefs := (mOptionRefs picky_parser)
                 [0 := (mOptionRefs picky_parser ! 0)
                    \<lparr>mArgsRef := map2 (\<lambda>a v. a\<lparr>mValue := v\<rparr>)
                                   (mArgsRef (mOptionRefs picky_parser ! 0)) [''ok''],
                     mProvided := True\<rparr>]\<rparr>)
              (int (length [''prog''])) [''prog''] 1"
    by (subst parse_loop_head_match [where ref = 0, OF _ _ _ refl])
      (simp_all add: picky_simps picky_accepts)
  also have "\<dots> = Some (None,
      picky_parser\<lparr>mOptionRefs := (mOptionRefs picky_parser)
                 [0 := (mOptionRefs picky_parser ! 0)
                    \<lparr>mArgsRef := map2 (\<lambda>a v. a\<lparr>mValue := v\<rparr>)
                                   (mArgsRef (mOptionRefs picky_parser ! 0)) [''ok''],
                     mProvided := True\<rparr>]\<rparr>, silent)"
    by (rule parse_loop_head_end)
  finally show ?thesis
    by (simp add: picky_simps)
qed

lemma picky_rematch_bad:
  "parse picky_parser 5 [''prog'', ''-x'', ''ok'', ''-x'', ''bad'']
     = Some (PARSED_FAILED_VALIDATOR,
         picky_parser\<lparr>mOptionRefs :=
           [picky_option\<lparr>mArgsRef := [Argument_init ''n'' []\<lparr>mValue := ''bad''\<rparr>],
                         mProvided := True\<rparr>]\<rparr>,
         silent)"
proof -
  let ?p1 = "picky_parser\<lparr>mOptionRefs :=
           [picky_option\<lparr>mArgsRef := [Argument_init ''n'' []\<lparr>mValue := ''ok''\<rparr>],
                         mProvided := True\<rparr>]\<rparr>"
  have scan: "parse_loop picky_parser (int (length (''prog'' # [''-x'', ''ok'']))) (''prog'' # [''-x'', ''ok'']) 1
      = Some (None, ?p1, silent)"
    using picky_scan_ok by simp
  have "parse picky_parser (int (length (''prog'' # [''-x'', ''ok''] @ [''-x'', ''bad''])))
          (''prog'' # [''-x'', ''ok''] @ [''-x'', ''bad''])
      = parse ?p1 (int (length (''prog'' # ''-x'' # [''bad''] @ []))) (''prog'' # ''-x'' # [''bad''] @ [])"
    using parse_after_prefix [OF scan, of "[''-x'', ''bad'']"] by simp
  also have "\<dots> = Some (PARSED_FAILED_VALIDATOR,
         picky_parser\<lparr>mOptionRefs :=
           [picky_option\<lparr>mArgsRef := [Argument_init ''n'' []\<lparr>mValue := ''bad''\<rparr>],
                         mProvided := True\<rparr>]\<rparr>,
         silent)"
    unfolding parse_def
    by (subst parse_loop_head_match [where ref = 0, OF _ _ _ refl])
      (simp_all add: picky_simps picky_accepts)
  finally show ?thesis by simp
qed


subsection \<open>Registration\<close>

lemma fold_map_upd:
  "fold (\<lambda>opt m. m(opt \<mapsto> ref)) opts m alias
     = (if alias \<in> set opts then Some ref else m alias)"
  by (induction opts arbitrary: m) auto

subsection \<open>Where a failing call stopped\<close>

lemma stored_nth:
  "j < length args \<Longrightarrow>
     mValue ((map2 (\<lambda>a v. a\<lparr>mValue := v\<rparr>) args vs @ drop (length vs) args) ! j)
       = (if j < length vs then vs ! j else mValue (args ! j))"
  by (simp add: nth_append)

lemma stored_full:
  "length vs = length args \<Longrightarrow>
     map2 (\<lambda>a v. a\<lparr>mValue := v\<rparr>) args (vs @ further) @ drop (length (vs @ further)) args
       = map2 (\<lambda>a v. a\<lparr>mValue := v\<rparr>) args vs"
  by (induction vs args rule: list_induct2) simp_all

lemma early_exit_decompose:
  assumes "parse_loop p (int (length (prog # toks))) (prog # toks) 1 = Some (Some r, p', out)"
    and "r \<noteq> PARSED_HELP"
  shows "\<exists>pre flag rest p1 out1.
           toks = pre @ flag # rest
           \<and> parse_loop p (int (length (prog # pre))) (prog # pre) 1 = Some (None, p1, out1)
           \<and> parse_body p1 (int (length (prog # flag # rest))) (prog # flag # rest) 1
               = Some (Return r p' out)
           \<and> ((mOptionsMap p1 flag = None \<and> p' = p1)
              \<or> (\<exists>ref. mOptionsMap p1 flag = Some ref
                   \<and> p' = p1\<lparr>mOptionRefs := (mOptionRefs p1)
                          [ref := (mOptionRefs p1 ! ref)
                             \<lparr>mArgsRef :=
                                map2 (\<lambda>a v. a\<lparr>mValue := v\<rparr>) (mArgsRef (mOptionRefs p1 ! ref)) rest
                                  @ drop (length rest) (mArgsRef (mOptionRefs p1 ! ref))\<rparr>]\<rparr>))"
  using assms
proof (induction toks arbitrary: p rule: measure_induct_rule [where f = length])
  case (less toks)
  show ?case
  proof (cases toks)
    case Nil
    with less.prems(1) show ?thesis by (simp add: parse_loop_end)
  next
    case (Cons flag rest)
    note start = parse_loop_head_end [of p prog]
    show ?thesis
    proof (cases "flag = ''--help'' \<or> flag = ''-h'' \<or> flag = ''/?''")
      case True
      from parse_loop_head_help [OF True, of p prog rest] less.prems Cons
      show ?thesis by (cases "composeHelpString p") auto
    next
      case nohelp: False
      show ?thesis
      proof (cases "mOptionsMap p flag")
        case None
        from parse_loop_head_unknown [OF nohelp None, of prog rest] less.prems(1) Cons
        have "p' = p" and ro: "r = PARSED_FAILED"
          "out = \<lparr>cout = [],
                cerr = ''Invalid argument {'' @ [sq] @ flag @ [sq]
                         @ ''}. Please use --help for more information.'' @ endl\<rparr>"
          by simp_all
        moreover from parse_body_unknown [OF nohelp None, of "int (length (prog # flag # rest))" "[prog]" rest] ro
        have "parse_body p (int (length (prog # flag # rest))) (prog # flag # rest) 1
            = Some (Return r p out)" by simp
        ultimately show ?thesis using Cons None start by (intro exI [of _ "[]"] exI [of _ flag] exI [of _ rest] exI [of _ p] exI [of _ silent]) simp
      next
        case (Some ref)
        let ?args = "mArgsRef (mOptionRefs p ! ref)"
        show ?thesis
        proof (cases "length rest < length ?args")
          case True
          from parse_loop_head_missing [OF nohelp Some True, of prog] less.prems(1) Cons
          have p': "p' = p\<lparr>mOptionRefs := (mOptionRefs p)
                          [ref := (mOptionRefs p ! ref)
                             \<lparr>mArgsRef := map2 (\<lambda>a v. a\<lparr>mValue := v\<rparr>) ?args rest
                                  @ drop (length rest) ?args\<rparr>]\<rparr>"
            and ro: "r = PARSED_FAILED"
              "out = \<lparr>cout = [],
                    cerr = ''Missing argument {'' @ [sq] @ mId (?args ! length rest) @ [sq]
                             @ ''} for parameter '' @ [sq] @ flag @ [sq]
                             @ ''. Please use --help for more information.'' @ endl\<rparr>"
            by simp_all
          from parse_body_missing [OF nohelp Some True, of "[prog]"] p' ro
          have "parse_body p (int (length (prog # flag # rest))) (prog # flag # rest) 1
              = Some (Return r p' out)" by (simp add: Let_def)
          with p' Cons Some start show ?thesis by (intro exI [of _ "[]"] exI [of _ flag] exI [of _ rest] exI [of _ p] exI [of _ silent]) simp
        next
          case False
          define vs where "vs = take (length ?args) rest"
          define further where "further = drop (length ?args) rest"
          from False have rest: "rest = vs @ further" and len: "length vs = length ?args"
            by (simp_all add: vs_def further_def)
          define opt' where "opt' = (mOptionRefs p ! ref)
              \<lparr>mArgsRef := map2 (\<lambda>a v. a\<lparr>mValue := v\<rparr>) ?args vs\<rparr>"
          note step = parse_loop_head_match [OF nohelp Some len opt'_def, of prog]
          show ?thesis
          proof (cases "validator_rejects opt'")
            case True
            with step [of further] less.prems(1) Cons rest
            have p': "p' = p\<lparr>mOptionRefs := (mOptionRefs p)[ref := opt']\<rparr>"
              and ro: "r = PARSED_FAILED_VALIDATOR" "out = silent" by simp_all
            from parse_body_match [OF nohelp Some len, of "[prog]" further] True p' ro rest
            have "parse_body p (int (length (prog # flag # rest))) (prog # flag # rest) 1
                = Some (Return r p' out)" by (simp add: Let_def opt'_def)
            moreover note p'
            moreover from stored_full [OF len, of further] rest
            have "opt' = (mOptionRefs p ! ref)
                     \<lparr>mArgsRef := map2 (\<lambda>a v. a\<lparr>mValue := v\<rparr>) ?args rest
                                  @ drop (length rest) ?args\<rparr>"
              by (simp add: opt'_def)
            ultimately show ?thesis using Cons Some start by (intro exI [of _ "[]"] exI [of _ flag] exI [of _ rest] exI [of _ p] exI [of _ silent]) simp
          next
            case False
            define q where "q = p\<lparr>mOptionRefs := (mOptionRefs p)[ref := opt'\<lparr>mProvided := True\<rparr>]\<rparr>"
            from step [of further] False less.prems(1) Cons rest
            have run: "parse_loop q (int (length (prog # further))) (prog # further) 1
                = Some (Some r, p', out)"
              by (simp add: q_def)
            from Cons rest have "length further < length toks" by simp
            from less.IH [OF this run less.prems(2)] obtain pre' flag' rest' p1 out1 where
              f: "further = pre' @ flag' # rest'"
              and s: "parse_loop q (int (length (prog # pre'))) (prog # pre') 1 = Some (None, p1, out1)"
              and b: "parse_body p1 (int (length (prog # flag' # rest'))) (prog # flag' # rest') 1
                  = Some (Return r p' out)"
              and w: "(mOptionsMap p1 flag' = None \<and> p' = p1)
              \<or> (\<exists>ref. mOptionsMap p1 flag' = Some ref
                   \<and> p' = p1\<lparr>mOptionRefs := (mOptionRefs p1)
                          [ref := (mOptionRefs p1 ! ref)
                             \<lparr>mArgsRef :=
                                map2 (\<lambda>a v. a\<lparr>mValue := v\<rparr>) (mArgsRef (mOptionRefs p1 ! ref)) rest'
                                  @ drop (length rest') (mArgsRef (mOptionRefs p1 ! ref))\<rparr>]\<rparr>)"
              by blast
            from step [of pre'] False s
            have "parse_loop p (int (length (prog # flag # vs @ pre'))) (prog # flag # vs @ pre') 1
                = Some (None, p1, out1)"
              by (simp add: q_def)
            moreover from Cons rest f have "toks = (flag # vs @ pre') @ flag' # rest'" by simp
            ultimately show ?thesis using w b
              by (intro exI [of _ "flag # vs @ pre'"] exI [of _ flag'] exI [of _ rest']
                  exI [of _ p1] exI [of _ out1]) simp
          qed
        qed
      qed
    qed
  qed
qed

lemma stored_option:
  assumes "p' = p1\<lparr>mOptionRefs := (mOptionRefs p1)
              [ref := (mOptionRefs p1 ! ref)
                 \<lparr>mArgsRef :=
                    map2 (\<lambda>a v. a\<lparr>mValue := v\<rparr>) (mArgsRef (mOptionRefs p1 ! ref)) rest
                      @ drop (length rest) (mArgsRef (mOptionRefs p1 ! ref))\<rparr>]\<rparr>"
    and "k < length (mOptionRefs p1)"
  shows "mProvided (mOptionRefs p' ! k) = mProvided (mOptionRefs p1 ! k)"
    and "length (mArgsRef (mOptionRefs p' ! k)) = length (mArgsRef (mOptionRefs p1 ! k))"
    and "j < length (mArgsRef (mOptionRefs p1 ! k)) \<Longrightarrow>
           mValue (mArgsRef (mOptionRefs p' ! k) ! j)
             = (if k = ref \<and> j < length rest then rest ! j
                else mValue (mArgsRef (mOptionRefs p1 ! k) ! j))"
proof -
  show "mProvided (mOptionRefs p' ! k) = mProvided (mOptionRefs p1 ! k)"
    using assms by (cases "k = ref") simp_all
  show "length (mArgsRef (mOptionRefs p' ! k)) = length (mArgsRef (mOptionRefs p1 ! k))"
    using assms by (cases "k = ref") simp_all
  assume j: "j < length (mArgsRef (mOptionRefs p1 ! k))"
  show "mValue (mArgsRef (mOptionRefs p' ! k) ! j)
             = (if k = ref \<and> j < length rest then rest ! j
                else mValue (mArgsRef (mOptionRefs p1 ! k) ! j))"
  proof (cases "k = ref")
    case True
    with assms have "mArgsRef (mOptionRefs p' ! k)
        = map2 (\<lambda>a v. a\<lparr>mValue := v\<rparr>) (mArgsRef (mOptionRefs p1 ! k)) rest
            @ drop (length rest) (mArgsRef (mOptionRefs p1 ! k))" by simp
    with stored_nth [OF j, of rest] True show ?thesis by simp
  next
    case False
    with assms show ?thesis by simp
  qed
qed

subsection \<open>Reading a slot by its id\<close>





subsection \<open>The invariant of parsers\<close>







subsection \<open>The occurrences in a token list\<close>


subsection \<open>Calls that return \<open>PARSED_OK\<close>\<close>






subsection \<open>Two slots with one id\<close>



section \<open>The claims\<close>

text \<open>
  Claim C1. When the loop over the tokens runs to its end, leaving the parser \<open>p'\<close>,
  \<open>parse\<close> returns \<open>PARSED_OK\<close> if every option of \<open>p'\<close> is provided or not
  mandatory, and \<open>PARSED_FAILED\<close> otherwise; in that case the option it reports on
  \<open>std::cerr\<close>, by its first alias, is the first one in registration order that is
  mandatory and not provided. The parser is returned as the loop left it.
\<close>

theorem parse_mandatory_check:
  assumes "parse_loop p argc argv 1 = Some (None, p', out)"
  shows "((\<forall>opt \<in> set (mOptionRefs p'). \<not> mMandatory opt \<or> mProvided opt) \<longrightarrow>
            parse p argc argv = Some (PARSED_OK, p', silent))
       \<and> (\<forall>before opt after.
            mOptionRefs p' = before @ opt # after
              \<and> (\<forall>b \<in> set before. \<not> mMandatory b \<or> mProvided b)
              \<and> mMandatory opt \<and> \<not> mProvided opt \<longrightarrow>
            parse p argc argv
              = Some (PARSED_FAILED, p',
                  \<lparr>cout = [],
                   cerr = ''Mandatory parameter {'' @ [sq] @ hd (mOpts opt) @ [sq]
                            @ ''} not provided. Please use --help for more information.''
                            @ endl\<rparr>))"
proof (intro conjI allI impI)
  assume "\<forall>opt \<in> set (mOptionRefs p'). \<not> mMandatory opt \<or> mProvided opt"
  then have "parse_mandatory (mOptionRefs p') = (PARSED_OK, silent)"
    by (rule parse_mandatory_ok)
  with assms show "parse p argc argv = Some (PARSED_OK, p', silent)"
    by (simp add: parse_def)
next
  fix before opt after
  assume a: "mOptionRefs p' = before @ opt # after
              \<and> (\<forall>b \<in> set before. \<not> mMandatory b \<or> mProvided b)
              \<and> mMandatory opt \<and> \<not> mProvided opt"
  then have "parse_mandatory (before @ opt # after)
           = (PARSED_FAILED,
              \<lparr>cout = [],
               cerr = ''Mandatory parameter {'' @ [sq] @ hd (mOpts opt) @ [sq]
                        @ ''} not provided. Please use --help for more information.''
                        @ endl\<rparr>)"
    by (intro parse_mandatory_first) simp_all
  with assms a show "parse p argc argv
              = Some (PARSED_FAILED, p',
                  \<lparr>cout = [],
                   cerr = ''Mandatory parameter {'' @ [sq] @ hd (mOpts opt) @ [sq]
                            @ ''} not provided. Please use --help for more information.''
                            @ endl\<rparr>)"
    by (simp add: parse_def)
qed

text \<open>
  C1 on the sample registry: \<open>-v\<close> alone is scanned to the end and the mandatory
  option is then reported; with \<open>--mandatory X Y\<close> the result is \<open>PARSED_OK\<close>.
\<close>

theorem parse_mandatory_check_witness:
  "parse_loop sample_parser 2 [''prog'', ''-v''] 1
     = Some (None,
         sample_parser\<lparr>mOptionRefs := [sample_version\<lparr>mProvided := True\<rparr>, sample_mandatory]\<rparr>,
         silent)
   \<and> parse sample_parser 2 [''prog'', ''-v'']
     = Some (PARSED_FAILED,
         sample_parser\<lparr>mOptionRefs := [sample_version\<lparr>mProvided := True\<rparr>, sample_mandatory]\<rparr>,
         \<lparr>cout = [],
          cerr = ''Mandatory parameter {'' @ [sq] @ ''--mandatory'' @ [sq]
                   @ ''} not provided. Please use --help for more information.'' @ endl\<rparr>)
   \<and> map_option fst (parse sample_parser 4 [''prog'', ''--mandatory'', ''X'', ''Y''])
     = Some PARSED_OK"
proof -
  let ?p' = "sample_parser\<lparr>mOptionRefs := [sample_version\<lparr>mProvided := True\<rparr>, sample_mandatory]\<rparr>"
  have scan: "parse_loop sample_parser 2 [''prog'', ''-v''] 1 = Some (None, ?p', silent)"
    using sample_scan_v by simp
  have first: "mOptionRefs ?p' = [sample_version\<lparr>mProvided := True\<rparr>] @ sample_mandatory # []
      \<and> (\<forall>b \<in> set [sample_version\<lparr>mProvided := True\<rparr>]. \<not> mMandatory b \<or> mProvided b)
      \<and> mMandatory sample_mandatory \<and> \<not> mProvided sample_mandatory"
    by (simp add: sample_option_simps)
  from parse_mandatory_check [OF scan, THEN conjunct2, rule_format, OF first]
  have failed: "parse sample_parser 2 [''prog'', ''-v'']
     = Some (PARSED_FAILED, ?p',
         \<lparr>cout = [],
          cerr = ''Mandatory parameter {'' @ [sq] @ ''--mandatory'' @ [sq]
                   @ ''} not provided. Please use --help for more information.'' @ endl\<rparr>)"
    by (simp add: sample_option_simps)
  have scan2: "parse_loop sample_parser 4 [''prog'', ''--mandatory'', ''X'', ''Y''] 1
     = Some (None,
         sample_parser\<lparr>mOptionRefs :=
           [sample_version,
            sample_mandatory
              \<lparr>mArgsRef := [Argument_init ''arg1'' ''The argument 1.''\<lparr>mValue := ''X''\<rparr>,
                            Argument_init ''arg2'' ''The argument 2.''\<lparr>mValue := ''Y''\<rparr>],
               mProvided := True\<rparr>]\<rparr>,
         silent)"
    using sample_scan_mandatory by simp
  from parse_mandatory_check [OF scan2, THEN conjunct1]
  have "map_option fst (parse sample_parser 4 [''prog'', ''--mandatory'', ''X'', ''Y''])
     = Some PARSED_OK"
    by (simp add: sample_option_simps)
  with scan failed show ?thesis by blast
qed

text \<open>
  Claim C2. Let the tokens \<open>pre\<close> before a flag be scanned to the end, leaving the
  parser \<open>p1\<close>, and let the flag resolve to the option \<open>opt\<close> of \<open>p1\<close>, with
  \<open>k\<close> slots. If fewer than \<open>k\<close> tokens follow the flag, \<open>parse\<close> returns
  \<open>PARSED_FAILED\<close> and reports the first slot left without a token as a missing
  argument; the slots before it hold the tokens that were there. If at least \<open>k\<close>
  tokens follow, the first \<open>k\<close> of them are the values of the \<open>k\<close> slots, in the
  slots' order, and unless the validator rejects the option, parsing goes on as the
  parsing of the tokens after these \<open>k\<close>, which are matched as flags.
\<close>

theorem parse_slots:
  assumes "parse_loop p (int (length (prog # pre))) (prog # pre) 1 = Some (None, p1, out1)"
    and "\<not> (flag = ''--help'' \<or> flag = ''-h'' \<or> flag = ''/?'')"
    and "mOptionsMap p1 flag = Some ref"
    and "opt = mOptionRefs p1 ! ref"
  shows "(length rest < length (mArgsRef opt) \<longrightarrow>
            parse p (int (length (prog # pre @ flag # rest))) (prog # pre @ flag # rest)
              = Some (PARSED_FAILED,
                  p1\<lparr>mOptionRefs := (mOptionRefs p1)
                      [ref := opt\<lparr>mArgsRef := map2 (\<lambda>a v. a\<lparr>mValue := v\<rparr>) (mArgsRef opt) rest
                                               @ drop (length rest) (mArgsRef opt)\<rparr>]\<rparr>,
                  \<lparr>cout = [],
                   cerr = ''Missing argument {'' @ [sq] @ mId (mArgsRef opt ! length rest) @ [sq]
                            @ ''} for parameter '' @ [sq] @ flag @ [sq]
                            @ ''. Please use --help for more information.'' @ endl\<rparr>))
       \<and> (\<forall>vs further opt'.
            rest = vs @ further \<and> length vs = length (mArgsRef opt)
              \<and> opt' = opt\<lparr>mArgsRef := map2 (\<lambda>a v. a\<lparr>mValue := v\<rparr>) (mArgsRef opt) vs\<rparr> \<longrightarrow>
            map mValue (mArgsRef opt') = vs
              \<and> map mId (mArgsRef opt') = map mId (mArgsRef opt)
              \<and> parse p (int (length (prog # pre @ flag # rest))) (prog # pre @ flag # rest)
                  = (if validator_rejects opt'
                     then Some (PARSED_FAILED_VALIDATOR,
                            p1\<lparr>mOptionRefs := (mOptionRefs p1)[ref := opt']\<rparr>, silent)
                     else parse (p1\<lparr>mOptionRefs := (mOptionRefs p1)[ref := opt'\<lparr>mProvided := True\<rparr>]\<rparr>)
                            (int (length (prog # further))) (prog # further)))"
proof (intro conjI allI impI)
  assume "length rest < length (mArgsRef opt)"
  with assms(4) have short: "length rest < length (mArgsRef (mOptionRefs p1 ! ref))" by simp
  have "parse p (int (length (prog # pre @ flag # rest))) (prog # pre @ flag # rest)
      = parse p1 (int (length (prog # flag # rest))) (prog # flag # rest)"
    using assms(1) by (rule parse_after_prefix)
  also have "\<dots> = Some (PARSED_FAILED,
                  p1\<lparr>mOptionRefs := (mOptionRefs p1)
                      [ref := opt\<lparr>mArgsRef := map2 (\<lambda>a v. a\<lparr>mValue := v\<rparr>) (mArgsRef opt) rest
                                               @ drop (length rest) (mArgsRef opt)\<rparr>]\<rparr>,
                  \<lparr>cout = [],
                   cerr = ''Missing argument {'' @ [sq] @ mId (mArgsRef opt ! length rest) @ [sq]
                            @ ''} for parameter '' @ [sq] @ flag @ [sq]
                            @ ''. Please use --help for more information.'' @ endl\<rparr>)"
    unfolding parse_def parse_loop_head_missing [OF assms(2,3) short] assms(4)
    by simp
  finally show "parse p (int (length (prog # pre @ flag # rest))) (prog # pre @ flag # rest)
              = Some (PARSED_FAILED,
                  p1\<lparr>mOptionRefs := (mOptionRefs p1)
                      [ref := opt\<lparr>mArgsRef := map2 (\<lambda>a v. a\<lparr>mValue := v\<rparr>) (mArgsRef opt) rest
                                               @ drop (length rest) (mArgsRef opt)\<rparr>]\<rparr>,
                  \<lparr>cout = [],
                   cerr = ''Missing argument {'' @ [sq] @ mId (mArgsRef opt ! length rest) @ [sq]
                            @ ''} for parameter '' @ [sq] @ flag @ [sq]
                            @ ''. Please use --help for more information.'' @ endl\<rparr>)" .
next
  fix vs further opt'
  assume a: "rest = vs @ further \<and> length vs = length (mArgsRef opt)
              \<and> opt' = opt\<lparr>mArgsRef := map2 (\<lambda>a v. a\<lparr>mValue := v\<rparr>) (mArgsRef opt) vs\<rparr>"
  then have "length vs = length (mArgsRef opt)"
    and "mArgsRef opt' = map2 (\<lambda>a v. a\<lparr>mValue := v\<rparr>) (mArgsRef opt) vs" by simp_all
  then show "map mValue (mArgsRef opt') = vs"
    and "map mId (mArgsRef opt') = map mId (mArgsRef opt)"
    by (simp_all only: map2_mValue map2_mId)
  from a assms(4) have len: "length vs = length (mArgsRef (mOptionRefs p1 ! ref))"
    and opt': "opt' = (mOptionRefs p1 ! ref)
           \<lparr>mArgsRef := map2 (\<lambda>a v. a\<lparr>mValue := v\<rparr>) (mArgsRef (mOptionRefs p1 ! ref)) vs\<rparr>"
    by simp_all
  have "parse p (int (length (prog # pre @ flag # rest))) (prog # pre @ flag # rest)
      = parse p1 (int (length (prog # flag # vs @ further))) (prog # flag # vs @ further)"
    using a parse_after_prefix [OF assms(1), of "flag # rest"] by simp
  also have "\<dots> = (if validator_rejects opt'
                     then Some (PARSED_FAILED_VALIDATOR,
                            p1\<lparr>mOptionRefs := (mOptionRefs p1)[ref := opt']\<rparr>, silent)
                     else parse (p1\<lparr>mOptionRefs := (mOptionRefs p1)[ref := opt'\<lparr>mProvided := True\<rparr>]\<rparr>)
                            (int (length (prog # further))) (prog # further))"
    unfolding parse_def parse_loop_head_match [OF assms(2,3) len opt'] by simp
  finally show "parse p (int (length (prog # pre @ flag # rest))) (prog # pre @ flag # rest)
                  = (if validator_rejects opt'
                     then Some (PARSED_FAILED_VALIDATOR,
                            p1\<lparr>mOptionRefs := (mOptionRefs p1)[ref := opt']\<rparr>, silent)
                     else parse (p1\<lparr>mOptionRefs := (mOptionRefs p1)[ref := opt'\<lparr>mProvided := True\<rparr>]\<rparr>)
                            (int (length (prog # further))) (prog # further))" .
qed

text \<open>
  C2 on the sample registry, after \<open>-v\<close>: \<open>--mandatory X\<close> lacks the value of
  \<open>arg2\<close>; in \<open>--mandatory X Y -v\<close> the two values are stored and \<open>-v\<close> is parsed
  next.
\<close>

theorem parse_slots_witness:
  "parse_loop sample_parser 2 [''prog'', ''-v''] 1
     = Some (None,
         sample_parser\<lparr>mOptionRefs := [sample_version\<lparr>mProvided := True\<rparr>, sample_mandatory]\<rparr>,
         silent)
   \<and> mOptionsMap
         (sample_parser\<lparr>mOptionRefs := [sample_version\<lparr>mProvided := True\<rparr>, sample_mandatory]\<rparr>)
         ''--mandatory'' = Some 1
   \<and> parse sample_parser 4 [''prog'', ''-v'', ''--mandatory'', ''X'']
     = Some (PARSED_FAILED,
         sample_parser\<lparr>mOptionRefs :=
           [sample_version\<lparr>mProvided := True\<rparr>,
            sample_mandatory
              \<lparr>mArgsRef := [Argument_init ''arg1'' ''The argument 1.''\<lparr>mValue := ''X''\<rparr>,
                            Argument_init ''arg2'' ''The argument 2.'']\<rparr>]\<rparr>,
         \<lparr>cout = [],
          cerr = ''Missing argument {'' @ [sq] @ ''arg2'' @ [sq]
                   @ ''} for parameter '' @ [sq] @ ''--mandatory'' @ [sq]
                   @ ''. Please use --help for more information.'' @ endl\<rparr>)
   \<and> parse sample_parser 6 [''prog'', ''-v'', ''--mandatory'', ''X'', ''Y'', ''-v'']
     = parse
         (sample_parser\<lparr>mOptionRefs :=
           [sample_version\<lparr>mProvided := True\<rparr>,
            sample_mandatory
              \<lparr>mArgsRef := [Argument_init ''arg1'' ''The argument 1.''\<lparr>mValue := ''X''\<rparr>,
                            Argument_init ''arg2'' ''The argument 2.''\<lparr>mValue := ''Y''\<rparr>],
               mProvided := True\<rparr>]\<rparr>)
         2 [''prog'', ''-v'']"
proof -
  let ?p1 = "sample_parser\<lparr>mOptionRefs := [sample_version\<lparr>mProvided := True\<rparr>, sample_mandatory]\<rparr>"
  have scan: "parse_loop sample_parser (int (length (''prog'' # [''-v'']))) (''prog'' # [''-v'']) 1
      = Some (None, ?p1, silent)"
    using sample_scan_v by simp
  have nohelp: "\<not> (''--mandatory'' = ''--help'' \<or> ''--mandatory'' = ''-h'' \<or> ''--mandatory'' = ''/?'')"
    by simp
  have ref: "mOptionsMap ?p1 ''--mandatory'' = Some 1"
    by (simp add: sample_parser_simps)
  have opt: "sample_mandatory = mOptionRefs ?p1 ! 1" by simp
  note slots = parse_slots [OF scan nohelp ref opt]
  have short: "length [''X''] < length (mArgsRef sample_mandatory)"
    by (simp add: sample_option_simps)
  from slots [of "[''X'']", THEN conjunct1, rule_format, OF short]
  have missing: "parse sample_parser 4 [''prog'', ''-v'', ''--mandatory'', ''X'']
     = Some (PARSED_FAILED,
         sample_parser\<lparr>mOptionRefs :=
           [sample_version\<lparr>mProvided := True\<rparr>,
            sample_mandatory
              \<lparr>mArgsRef := [Argument_init ''arg1'' ''The argument 1.''\<lparr>mValue := ''X''\<rparr>,
                            Argument_init ''arg2'' ''The argument 2.'']\<rparr>]\<rparr>,
         \<lparr>cout = [],
          cerr = ''Missing argument {'' @ [sq] @ ''arg2'' @ [sq]
                   @ ''} for parameter '' @ [sq] @ ''--mandatory'' @ [sq]
                   @ ''. Please use --help for more information.'' @ endl\<rparr>)"
    by (simp add: sample_option_simps Argument_init_def)
  have enough: "[''X'', ''Y'', ''-v''] = [''X'', ''Y''] @ [''-v'']
      \<and> length [''X'', ''Y''] = length (mArgsRef sample_mandatory)
      \<and> sample_mandatory\<lparr>mArgsRef := map2 (\<lambda>a v. a\<lparr>mValue := v\<rparr>) (mArgsRef sample_mandatory) [''X'', ''Y'']\<rparr>
          = sample_mandatory\<lparr>mArgsRef := map2 (\<lambda>a v. a\<lparr>mValue := v\<rparr>) (mArgsRef sample_mandatory) [''X'', ''Y'']\<rparr>"
    by (simp add: sample_option_simps)
  from slots [of "[''X'', ''Y'', ''-v'']", THEN conjunct2, rule_format, OF enough,
      THEN conjunct2, THEN conjunct2]
  have filled: "parse sample_parser 6 [''prog'', ''-v'', ''--mandatory'', ''X'', ''Y'', ''-v'']
     = parse
         (sample_parser\<lparr>mOptionRefs :=
           [sample_version\<lparr>mProvided := True\<rparr>,
            sample_mandatory
              \<lparr>mArgsRef := [Argument_init ''arg1'' ''The argument 1.''\<lparr>mValue := ''X''\<rparr>,
                            Argument_init ''arg2'' ''The argument 2.''\<lparr>mValue := ''Y''\<rparr>],
               mProvided := True\<rparr>]\<rparr>)
         2 [''prog'', ''-v'']"
    by (simp add: sample_option_simps validator_rejects_def)
  from scan ref missing filled show ?thesis by simp
qed



text \<open>
  Claim C4, as the code has it. Let the tokens \<open>pre\<close> before a flag be scanned to the
  end, leaving the parser \<open>p1\<close>; let the flag resolve to the option \<open>opt\<close> of
  \<open>p1\<close>, followed by as many tokens \<open>vs\<close> as the option has slots; and let the
  option's validator reject the option with \<open>vs\<close> stored in its slots. Then
  \<open>parse\<close> returns \<open>PARSED_FAILED_VALIDATOR\<close>, whatever tokens follow, and writes
  nothing; in the parser it leaves, the option's slots hold \<open>vs\<close>, and its provided
  flag is what it was in \<open>p1\<close>: the rejected occurrence does not set it, and does not
  clear it either.
\<close>

theorem parse_validator_rejects:
  assumes "parse_loop p (int (length (prog # pre))) (prog # pre) 1 = Some (None, p1, out1)"
    and "\<not> (flag = ''--help'' \<or> flag = ''-h'' \<or> flag = ''/?'')"
    and "mOptionsMap p1 flag = Some ref"
    and "ref < length (mOptionRefs p1)"
    and "opt = mOptionRefs p1 ! ref"
    and "length vs = length (mArgsRef opt)"
    and "mValidator opt = Some validator"
    and "\<not> validator (OptionData.truncate
              (opt\<lparr>mArgsRef := map2 (\<lambda>a v. a\<lparr>mValue := v\<rparr>) (mArgsRef opt) vs\<rparr>))"
  shows "\<exists>p'. parse p (int (length (prog # pre @ flag # vs @ rest))) (prog # pre @ flag # vs @ rest)
                = Some (PARSED_FAILED_VALIDATOR, p', silent)
           \<and> mOptionRefs p'
               = (mOptionRefs p1)
                   [ref := opt\<lparr>mArgsRef := map2 (\<lambda>a v. a\<lparr>mValue := v\<rparr>) (mArgsRef opt) vs\<rparr>]
           \<and> map mValue (mArgsRef (mOptionRefs p' ! ref)) = vs
           \<and> mProvided (mOptionRefs p' ! ref) = mProvided (mOptionRefs p1 ! ref)"
proof -
  let ?opt' = "opt\<lparr>mArgsRef := map2 (\<lambda>a v. a\<lparr>mValue := v\<rparr>) (mArgsRef opt) vs\<rparr>"
  let ?p' = "p1\<lparr>mOptionRefs := (mOptionRefs p1)[ref := ?opt']\<rparr>"
  from assms(7,8) have rej: "validator_rejects ?opt'"
    by (simp add: validator_rejects_def)
  from assms(5,6) have len: "length vs = length (mArgsRef (mOptionRefs p1 ! ref))"
    and opt': "?opt' = (mOptionRefs p1 ! ref)
           \<lparr>mArgsRef := map2 (\<lambda>a v. a\<lparr>mValue := v\<rparr>) (mArgsRef (mOptionRefs p1 ! ref)) vs\<rparr>"
    by simp_all
  have "parse p (int (length (prog # pre @ flag # vs @ rest))) (prog # pre @ flag # vs @ rest)
      = parse p1 (int (length (prog # flag # vs @ rest))) (prog # flag # vs @ rest)"
    using assms(1) by (rule parse_after_prefix)
  also have "\<dots> = Some (PARSED_FAILED_VALIDATOR, ?p', silent)"
    unfolding parse_def parse_loop_head_match [OF assms(2,3) len opt'] using rej by simp
  finally have "parse p (int (length (prog # pre @ flag # vs @ rest))) (prog # pre @ flag # vs @ rest)
      = Some (PARSED_FAILED_VALIDATOR, ?p', silent)" .
  moreover have "mOptionRefs ?p' = (mOptionRefs p1)[ref := ?opt']" by simp
  moreover have "map mValue (mArgsRef (mOptionRefs ?p' ! ref)) = vs"
  proof -
    from assms(4) have "mArgsRef (mOptionRefs ?p' ! ref)
        = map2 (\<lambda>a v. a\<lparr>mValue := v\<rparr>) (mArgsRef opt) vs" by simp
    with map2_mValue [OF assms(6)] show ?thesis by simp
  qed
  moreover from assms(4,5) have "mProvided (mOptionRefs ?p' ! ref) = mProvided (mOptionRefs p1 ! ref)"
    by simp
  ultimately show ?thesis by blast
qed

text \<open>
  C4 on the registry with the validator that accepts \<open>ok\<close> only: after \<open>-x ok\<close>,
  the occurrence \<open>-x bad\<close> is rejected with \<open>bad\<close> in the slot, and the token
  after it is not looked at.
\<close>

theorem parse_validator_rejects_witness:
  "parse_loop picky_parser 3 [''prog'', ''-x'', ''ok''] 1
     = Some (None,
         picky_parser\<lparr>mOptionRefs :=
           [picky_option\<lparr>mArgsRef := [Argument_init ''n'' []\<lparr>mValue := ''ok''\<rparr>],
                         mProvided := True\<rparr>]\<rparr>,
         silent)
   \<and> (\<exists>p'. parse picky_parser 6 [''prog'', ''-x'', ''ok'', ''-x'', ''bad'', ''junk'']
                = Some (PARSED_FAILED_VALIDATOR, p', silent)
           \<and> map mValue (mArgsRef (mOptionRefs p' ! 0)) = [''bad'']
           \<and> mProvided (mOptionRefs p' ! 0))"
proof -
  let ?opt1 = "picky_option\<lparr>mArgsRef := [Argument_init ''n'' []\<lparr>mValue := ''ok''\<rparr>],
                         mProvided := True\<rparr>"
  let ?p1 = "picky_parser\<lparr>mOptionRefs := [?opt1]\<rparr>"
  have scan: "parse_loop picky_parser (int (length (''prog'' # [''-x'', ''ok'']))) (''prog'' # [''-x'', ''ok'']) 1
      = Some (None, ?p1, silent)"
    using picky_scan_ok by simp
  have nohelp: "\<not> (''-x'' = ''--help'' \<or> ''-x'' = ''-h'' \<or> ''-x'' = ''/?'')" by simp
  have ref: "mOptionsMap ?p1 ''-x'' = Some 0" by (simp add: picky_simps)
  have range: "0 < length (mOptionRefs ?p1)" by simp
  have opt: "?opt1 = mOptionRefs ?p1 ! 0" by simp
  have len: "length [''bad''] = length (mArgsRef ?opt1)" by simp
  have val: "mValidator ?opt1 = Some (\<lambda>opt. Option_value opt ''n'' = Inr ''ok'')"
    by (simp add: picky_simps)
  have rej: "\<not> (\<lambda>opt. Option_value opt ''n'' = Inr ''ok'')
      (OptionData.truncate
         (?opt1\<lparr>mArgsRef := map2 (\<lambda>a v. a\<lparr>mValue := v\<rparr>) (mArgsRef ?opt1) [''bad'']\<rparr>))"
    by (simp add: OptionData.truncate_def Option_value_def picky_simps)
  from parse_validator_rejects [OF scan nohelp ref range opt len val rej, of "[''junk'']"]
  obtain p' where
    "parse picky_parser (int (length (''prog'' # [''-x'', ''ok''] @ ''-x'' # [''bad''] @ [''junk''])))
        (''prog'' # [''-x'', ''ok''] @ ''-x'' # [''bad''] @ [''junk''])
       = Some (PARSED_FAILED_VALIDATOR, p', silent)
     \<and> mOptionRefs p'
         = (mOptionRefs ?p1)
             [0 := ?opt1\<lparr>mArgsRef := map2 (\<lambda>a v. a\<lparr>mValue := v\<rparr>) (mArgsRef ?opt1) [''bad'']\<rparr>]
     \<and> map mValue (mArgsRef (mOptionRefs p' ! 0)) = [''bad'']
     \<and> mProvided (mOptionRefs p' ! 0) = mProvided (mOptionRefs ?p1 ! 0)" ..
  then have "parse picky_parser 6 [''prog'', ''-x'', ''ok'', ''-x'', ''bad'', ''junk'']
                = Some (PARSED_FAILED_VALIDATOR, p', silent)
           \<and> map mValue (mArgsRef (mOptionRefs p' ! 0)) = [''bad'']
           \<and> mProvided (mOptionRefs p' ! 0)"
    by simp
  then have "\<exists>p'. parse picky_parser 6 [''prog'', ''-x'', ''ok'', ''-x'', ''bad'', ''junk'']
                = Some (PARSED_FAILED_VALIDATOR, p', silent)
           \<and> map mValue (mArgsRef (mOptionRefs p' ! 0)) = [''bad'']
           \<and> mProvided (mOptionRefs p' ! 0)" ..
  moreover from scan have "parse_loop picky_parser 3 [''prog'', ''-x'', ''ok''] 1
     = Some (None, ?p1, silent)" by simp
  ultimately show ?thesis by (rule conjI [rotated])
qed

text \<open>
  C4 as it is stated fails for an option that was accepted before: in
  \<open>-x ok -x bad\<close> the second occurrence is rejected and \<open>parse\<close> returns
  \<open>PARSED_FAILED_VALIDATOR\<close>, but the option is marked provided, by the first one.
\<close>

theorem parse_validator_counterexample:
  "parse picky_parser 5 [''prog'', ''-x'', ''ok'', ''-x'', ''bad'']
     = Some (PARSED_FAILED_VALIDATOR,
         picky_parser\<lparr>mOptionRefs :=
           [picky_option\<lparr>mArgsRef := [Argument_init ''n'' []\<lparr>mValue := ''bad''\<rparr>],
                         mProvided := True\<rparr>]\<rparr>,
         silent)
   \<and> mProvided (hd (mOptionRefs (picky_parser\<lparr>mOptionRefs :=
           [picky_option\<lparr>mArgsRef := [Argument_init ''n'' []\<lparr>mValue := ''bad''\<rparr>],
                         mProvided := True\<rparr>]\<rparr>)))"
  using picky_rematch_bad by simp






text \<open>
  Claim C7, as the code has it. \<open>addOption\<close> has no failure: it appends the option
  to the list and maps every alias of the option to the new entry, also an alias that
  was in the index before, so that looking up any of the option's aliases afterwards
  gives the option just registered. An alias that the option does not have resolves
  as before.
\<close>

theorem addOption_shadows:
  "mOptionRefs (addOption p opt) = mOptionRefs p @ [opt]
   \<and> (\<forall>alias. mOptionsMap (addOption p opt) alias
         = (if alias \<in> set (mOpts opt) then Some (length (mOptionRefs p))
            else mOptionsMap p alias))
   \<and> (\<forall>alias \<in> set (mOpts opt). Parser_call (addOption p opt) alias = Inr opt)"
  by (simp add: addOption_def Let_def fold_map_upd Parser_call_def)

text \<open>
  C7 on two options that share the alias \<open>-x\<close>: after the second registration
  \<open>-x\<close>, which resolved to entry 0, resolves to the second option.
\<close>

theorem addOption_shadows_witness:
  "''-x'' \<in> set (mOpts (Option_init [''-x'', ''-y''] ''second'' False [] None))
   \<and> mOptionsMap (addOption (Parser_init [] [] []) (Option_init [''-x''] ''first'' False [] None))
         ''-x'' = Some 0
   \<and> Parser_call
         (addOption
            (addOption (Parser_init [] [] []) (Option_init [''-x''] ''first'' False [] None))
            (Option_init [''-x'', ''-y''] ''second'' False [] None))
         ''-x''
       = Inr (Option_init [''-x'', ''-y''] ''second'' False [] None)"
proof -
  have a: "''-x'' \<in> set (mOpts (Option_init [''-x'', ''-y''] ''second'' False [] None))"
    by (simp add: Option_init_def)
  have b: "mOptionsMap (addOption (Parser_init [] [] []) (Option_init [''-x''] ''first'' False [] None))
         ''-x'' = Some 0"
    by (simp add: addOption_def Parser_init_def Option_init_def)
  from addOption_shadows [THEN conjunct2, THEN conjunct2, THEN bspec, OF a] a b
  show ?thesis by simp
qed

text \<open>
  C7 as it is stated fails: registering a second option under the alias \<open>-x\<close>,
  which is in the index already, goes through; both options are in the list, and
  \<open>-x\<close> resolves to the second one.
\<close>

theorem addOption_counterexample:
  "Parser_call
     (addOption
        (addOption (Parser_init [] [] []) (Option_init [''-x''] ''first'' False [] None))
        (Option_init [''-x''] ''second'' False [] None))
     ''-x''
   = Inr (Option_init [''-x''] ''second'' False [] None)
   \<and> mOptionRefs
       (addOption
          (addOption (Parser_init [] [] []) (Option_init [''-x''] ''first'' False [] None))
          (Option_init [''-x''] ''second'' False [] None))
     = [Option_init [''-x''] ''first'' False [] None,
        Option_init [''-x''] ''second'' False [] None]
   \<and> mOptionsMap
       (addOption (Parser_init [] [] []) (Option_init [''-x''] ''first'' False [] None)) ''-x''
     = Some 0"
  by (simp add: addOption_def Parser_init_def Option_init_def Parser_call_def)

text \<open>
  Claim C8, as the code has it. For every text, every width \<open>W\<close> of at least 1 and
  every padding string \<open>P\<close>, \<open>splitWords\<close> returns, and its result is determined by
  four cases. A text of at most \<open>W\<close> characters is returned as it is, whether it holds
  a space or not. A longer text is cut within its first \<open>W\<close> characters: when these
  hold a space, the line is the text before the last such space, that space is dropped,
  and the rest of the result is \<open>P\<close> followed by the wrapping of what comes after
  the space; when they hold none, the line is exactly the first \<open>W\<close> characters and
  the rest is \<open>P\<close> followed by the wrapping of the text from position \<open>W\<close> on, so
  that line and remainder together are the text again. The first line carries no
  padding, since the wrapping of a remainder starts without one and \<open>P\<close> is put in
  front of it.
\<close>

theorem splitWords_wraps:
  "0 < W \<Longrightarrow>
     (\<exists>r. splitWords text W P = Some r) \<and>
     (length text \<le> W \<longrightarrow> splitWords text W P = Some text) \<and>
     (W < length text \<longrightarrow>
        (\<forall>index. index < W \<and> text ! index = CHR '' ''
             \<and> (\<forall>j. index < j \<and> j < W \<longrightarrow> text ! j \<noteq> CHR '' '') \<longrightarrow>
           splitWords text W P
             = map_option (\<lambda>r. take index text @ endl @ P @ r)
                 (splitWords (drop (Suc index) text) W P))) \<and>
     (W < length text \<and> CHR '' '' \<notin> set (take W text) \<longrightarrow>
        splitWords text W P
          = map_option (\<lambda>r. take W text @ endl @ P @ r) (splitWords (drop W text) W P)
          \<and> take W text @ drop W text = text)"
proof (intro conjI impI allI)
  assume "0 < W"
  then show "\<exists>r. splitWords text W P = Some r" by (rule splitWords_returns)
next
  assume "length text \<le> W"
  then show "splitWords text W P = Some text" by (rule splitWords_short)
next
  fix index
  assume "0 < W" "W < length text"
    and "index < W \<and> text ! index = CHR '' ''
           \<and> (\<forall>j. index < j \<and> j < W \<longrightarrow> text ! j \<noteq> CHR '' '')"
  then show "splitWords text W P
      = map_option (\<lambda>r. take index text @ endl @ P @ r)
          (splitWords (drop (Suc index) text) W P)"
    by (intro splitWords_space_break) auto
next
  assume "0 < W" "W < length text \<and> CHR '' '' \<notin> set (take W text)"
  then show "splitWords text W P
      = map_option (\<lambda>r. take W text @ endl @ P @ r) (splitWords (drop W text) W P)"
    by (intro splitWords_hard_break) auto
next
  show "take W text @ drop W text = text" by simp
qed

text \<open>
  The cases of C8 at width 8 and padding of two spaces: a break at the last space of
  \<open>hello wo\<close>, a second one, the short last line, and a hard break of a text without
  spaces.
\<close>

theorem splitWords_wraps_witness:
  "(0::nat) < 8
   \<and> splitWords ''hello world foo'' 8 ''  ''
       = map_option (\<lambda>r. ''hello'' @ endl @ ''  '' @ r) (splitWords ''world foo'' 8 ''  '')
   \<and> splitWords ''world foo'' 8 ''  '' = map_option (\<lambda>r. ''world'' @ endl @ ''  '' @ r) (splitWords ''foo'' 8 ''  '')
   \<and> splitWords ''foo'' 8 ''  '' = Some ''foo''
   \<and> splitWords ''helloworldfoo'' 8 ''  ''
       = map_option (\<lambda>r. ''hellowor'' @ endl @ ''  '' @ r) (splitWords ''ldfoo'' 8 ''  '')"
proof -
  have w: "(0::nat) < 8" by simp
  have nosp: "\<forall>j. 5 < j \<and> j < (8::nat) \<longrightarrow> ''hello world foo'' ! j \<noteq> CHR '' ''"
  proof (intro allI impI)
    fix j :: nat assume "5 < j \<and> j < 8"
    then have "j = 6 \<or> j = 7" by arith
    then show "''hello world foo'' ! j \<noteq> CHR '' ''" by auto
  qed
  have nosp2: "\<forall>j. 5 < j \<and> j < (8::nat) \<longrightarrow> ''world foo'' ! j \<noteq> CHR '' ''"
  proof (intro allI impI)
    fix j :: nat assume "5 < j \<and> j < 8"
    then have "j = 6 \<or> j = 7" by arith
    then show "''world foo'' ! j \<noteq> CHR '' ''" by auto
  qed
  have len: "8 < length ''hello world foo''" "8 < length ''world foo''"
    "length ''foo'' \<le> 8" "8 < length ''helloworldfoo''" by simp_all
  have sp: "5 < (8::nat) \<and> ''hello world foo'' ! 5 = CHR '' ''
              \<and> (\<forall>j. 5 < j \<and> j < (8::nat) \<longrightarrow> ''hello world foo'' ! j \<noteq> CHR '' '')"
    using nosp by simp
  have sp2: "5 < (8::nat) \<and> ''world foo'' ! 5 = CHR '' ''
              \<and> (\<forall>j. 5 < j \<and> j < (8::nat) \<longrightarrow> ''world foo'' ! j \<noteq> CHR '' '')"
    using nosp2 by simp
  have 1: "splitWords ''hello world foo'' 8 ''  ''
       = map_option (\<lambda>r. ''hello'' @ endl @ ''  '' @ r) (splitWords ''world foo'' 8 ''  '')"
    using splitWords_wraps [OF w, of "''hello world foo''" "''  ''",
        THEN conjunct2, THEN conjunct2, THEN conjunct1, rule_format, OF len(1) sp]
    by simp
  have 2: "splitWords ''world foo'' 8 ''  ''
       = map_option (\<lambda>r. ''world'' @ endl @ ''  '' @ r) (splitWords ''foo'' 8 ''  '')"
    using splitWords_wraps [OF w, of "''world foo''" "''  ''",
        THEN conjunct2, THEN conjunct2, THEN conjunct1, rule_format, OF len(2) sp2]
    by simp
  have 3: "splitWords ''foo'' 8 ''  '' = Some ''foo''"
    using splitWords_wraps [OF w, of "''foo''" "''  ''",
        THEN conjunct2, THEN conjunct1, rule_format, OF len(3)] .
  have "8 < length ''helloworldfoo'' \<and> CHR '' '' \<notin> set (take 8 ''helloworldfoo'')"
    by simp
  from splitWords_wraps [OF w, of "''helloworldfoo''" "''  ''",
        THEN conjunct2, THEN conjunct2, THEN conjunct2, rule_format, OF this]
  have 4: "splitWords ''helloworldfoo'' 8 ''  ''
       = map_option (\<lambda>r. ''hellowor'' @ endl @ ''  '' @ r) (splitWords ''ldfoo'' 8 ''  '')"
    by simp
  from w 1 2 3 4 show ?thesis by blast
qed

text \<open>
  C8 as it is stated fails twice. The text \<open>a b\<close> at width 80 is its own longest
  prefix of at most 80 characters and holds a space, yet it is returned unbroken: the
  loop runs only while more than \<open>W\<close> characters remain. And at width 0 a non-empty
  text is never consumed, so \<open>splitWords\<close> does not return.
\<close>

theorem splitWords_counterexample:
  "splitWords ''a b'' 80 [] = Some ''a b'' \<and> splitWords ''a'' 0 [] = None"
proof -
  have "splitWords ''a'' 0 [] = None"
  proof (cases "splitWords ''a'' 0 []")
    case (Some y)
    then show ?thesis using splitWords_loop_width0 [of 0 "[]" "[]" "''a''" "[]" y]
      by (simp add: splitWords_def)
  qed simp
  then show ?thesis by (simp add: splitWords_short)
qed

text \<open>
  Claim C9. \<open>parse\<close> never reads element 0 of the argument vector: two vectors that
  differ in that element only give the same result, the same parser (all provided flags
  and slot values) and the same output, whatever \<open>argc\<close> is.
\<close>

theorem parse_ignores_argv0:
  "parse p argc (a # ts) = parse p argc (b # ts)"
proof -
  have "parse_loop p argc (a # ts) 1 = parse_loop p argc (b # ts) 1"
    by (rule parse_loop_argv0) simp
  then show ?thesis unfolding parse_def by (rule arg_cong)
qed

text \<open>
  Claim C10. Whenever \<open>parse\<close> returns \<open>PARSED_FAILED\<close> or
  \<open>PARSED_FAILED_VALIDATOR\<close>, the tokens split into those before the failure, which
  are scanned to the end and leave a parser \<open>p1\<close>, and the rest: it is empty when
  a mandatory option was missing at the end, and otherwise it starts with the flag at
  which the loop returned. The parser returned is \<open>p1\<close> with its provided flags and
  slot values, nothing of it undone, except that the slots of the option matched by the
  failing flag hold the tokens after the flag, as far as there were tokens and slots:
  these were written before the missing token was noticed or the validator ran.
\<close>

theorem parse_failure_keeps_writes:
  assumes "parse p (int (length (prog # toks))) (prog # toks) = Some (r, p', out)"
    and "r = PARSED_FAILED \<or> r = PARSED_FAILED_VALIDATOR"
  shows "\<exists>pre rest p1 out1.
           toks = pre @ rest
           \<and> parse_loop p (int (length (prog # pre))) (prog # pre) 1 = Some (None, p1, out1)
           \<and> (if rest = [] then r = PARSED_FAILED
              else parse_body p1 (int (length (prog # rest))) (prog # rest) 1
                     = Some (Return r p' out))
           \<and> length (mOptionRefs p') = length (mOptionRefs p1)
           \<and> (\<forall>k < length (mOptionRefs p1).
                mProvided (mOptionRefs p' ! k) = mProvided (mOptionRefs p1 ! k)
                \<and> length (mArgsRef (mOptionRefs p' ! k)) = length (mArgsRef (mOptionRefs p1 ! k))
                \<and> (\<forall>j < length (mArgsRef (mOptionRefs p1 ! k)).
                     mValue (mArgsRef (mOptionRefs p' ! k) ! j)
                       = (if rest \<noteq> [] \<and> mOptionsMap p1 (hd rest) = Some k \<and> j < length (tl rest)
                          then tl rest ! j
                          else mValue (mArgsRef (mOptionRefs p1 ! k) ! j))))"
proof (cases "parse_loop p (int (length (prog # toks))) (prog # toks) 1")
  case None
  with assms(1) show ?thesis by (simp add: parse_def)
next
  case (Some res)
  obtain e q o' where res: "res = (e, q, o')" by (cases res) auto
  show ?thesis
  proof (cases e)
    case None
    with Some res assms(1) have "p' = q" and "r = fst (parse_mandatory (mOptionRefs q))"
      by (auto simp: parse_def split: prod.splits)
    moreover have "fst (parse_mandatory opts) = PARSED_OK \<or> fst (parse_mandatory opts) = PARSED_FAILED"
      for opts by (induction opts) simp_all
    then have "fst (parse_mandatory (mOptionRefs q)) \<noteq> PARSED_FAILED_VALIDATOR"
      by (metis ParsingResult.distinct(5,11))
    ultimately have "p' = q" and "r = PARSED_FAILED" using assms(2) by auto
    with Some res None show ?thesis
      by (intro exI [of _ toks] exI [of _ "[]"] exI [of _ q] exI [of _ o']) simp
  next
    case (Some r0)
    with \<open>parse_loop p (int (length (prog # toks))) (prog # toks) 1 = Some res\<close> res assms(1)
    have eq: "r0 = r" "q = p'" "o' = out" by (simp_all add: parse_def)
    with Some res \<open>parse_loop p (int (length (prog # toks))) (prog # toks) 1 = Some res\<close>
    have run: "parse_loop p (int (length (prog # toks))) (prog # toks) 1 = Some (Some r, p', out)"
      by simp
    from assms(2) have "r \<noteq> PARSED_HELP" by auto
    from early_exit_decompose [OF run this] obtain pre flag rest p1 out1 where
      t: "toks = pre @ flag # rest"
      and s: "parse_loop p (int (length (prog # pre))) (prog # pre) 1 = Some (None, p1, out1)"
      and b: "parse_body p1 (int (length (prog # flag # rest))) (prog # flag # rest) 1
          = Some (Return r p' out)"
      and w: "(mOptionsMap p1 flag = None \<and> p' = p1)
              \<or> (\<exists>ref. mOptionsMap p1 flag = Some ref
                   \<and> p' = p1\<lparr>mOptionRefs := (mOptionRefs p1)
                          [ref := (mOptionRefs p1 ! ref)
                             \<lparr>mArgsRef :=
                                map2 (\<lambda>a v. a\<lparr>mValue := v\<rparr>) (mArgsRef (mOptionRefs p1 ! ref)) rest
                                  @ drop (length rest) (mArgsRef (mOptionRefs p1 ! ref))\<rparr>]\<rparr>)"
      by blast
    have "length (mOptionRefs p') = length (mOptionRefs p1)
           \<and> (\<forall>k < length (mOptionRefs p1).
                mProvided (mOptionRefs p' ! k) = mProvided (mOptionRefs p1 ! k)
                \<and> length (mArgsRef (mOptionRefs p' ! k)) = length (mArgsRef (mOptionRefs p1 ! k))
                \<and> (\<forall>j < length (mArgsRef (mOptionRefs p1 ! k)).
                     mValue (mArgsRef (mOptionRefs p' ! k) ! j)
                       = (if flag # rest \<noteq> [] \<and> mOptionsMap p1 (hd (flag # rest)) = Some k
                              \<and> j < length (tl (flag # rest))
                          then tl (flag # rest) ! j
                          else mValue (mArgsRef (mOptionRefs p1 ! k) ! j))))"
    proof (cases "mOptionsMap p1 flag")
      case None
      with w show ?thesis by simp
    next
      case (Some ref)
      with w have p': "p' = p1\<lparr>mOptionRefs := (mOptionRefs p1)
                          [ref := (mOptionRefs p1 ! ref)
                             \<lparr>mArgsRef :=
                                map2 (\<lambda>a v. a\<lparr>mValue := v\<rparr>) (mArgsRef (mOptionRefs p1 ! ref)) rest
                                  @ drop (length rest) (mArgsRef (mOptionRefs p1 ! ref))\<rparr>]\<rparr>"
        by simp
      then have "length (mOptionRefs p') = length (mOptionRefs p1)" by simp
      moreover have "\<forall>k < length (mOptionRefs p1).
                mProvided (mOptionRefs p' ! k) = mProvided (mOptionRefs p1 ! k)
                \<and> length (mArgsRef (mOptionRefs p' ! k)) = length (mArgsRef (mOptionRefs p1 ! k))
                \<and> (\<forall>j < length (mArgsRef (mOptionRefs p1 ! k)).
                     mValue (mArgsRef (mOptionRefs p' ! k) ! j)
                       = (if flag # rest \<noteq> [] \<and> mOptionsMap p1 (hd (flag # rest)) = Some k
                              \<and> j < length (tl (flag # rest))
                          then tl (flag # rest) ! j
                          else mValue (mArgsRef (mOptionRefs p1 ! k) ! j)))"
      proof (intro allI impI conjI)
        fix k assume k: "k < length (mOptionRefs p1)"
        from stored_option(1) [OF p' k]
        show "mProvided (mOptionRefs p' ! k) = mProvided (mOptionRefs p1 ! k)" .
        from stored_option(2) [OF p' k]
        show "length (mArgsRef (mOptionRefs p' ! k)) = length (mArgsRef (mOptionRefs p1 ! k))" .
        fix j assume "j < length (mArgsRef (mOptionRefs p1 ! k))"
        from stored_option(3) [OF p' k this] Some
        show "mValue (mArgsRef (mOptionRefs p' ! k) ! j)
                       = (if flag # rest \<noteq> [] \<and> mOptionsMap p1 (hd (flag # rest)) = Some k
                              \<and> j < length (tl (flag # rest))
                          then tl (flag # rest) ! j
                          else mValue (mArgsRef (mOptionRefs p1 ! k) ! j))"
          by auto
      qed
      ultimately show ?thesis by simp
    qed
    with t s b show ?thesis
      by (intro exI [of _ pre] exI [of _ "flag # rest"] exI [of _ p1] exI [of _ out1]) simp
  qed
qed

text \<open>
  C10 on the registry with the validator that accepts \<open>ok\<close> only: \<open>-x ok -x bad\<close>
  fails at the second occurrence, and the parser returned has the option marked
  provided, by the first occurrence, and \<open>bad\<close> in the slot, from the second.
\<close>

theorem parse_failure_keeps_writes_witness:
  "parse picky_parser 5 [''prog'', ''-x'', ''ok'', ''-x'', ''bad'']
     = Some (PARSED_FAILED_VALIDATOR,
         picky_parser\<lparr>mOptionRefs :=
           [picky_option\<lparr>mArgsRef := [Argument_init ''n'' []\<lparr>mValue := ''bad''\<rparr>],
                         mProvided := True\<rparr>]\<rparr>,
         silent)
   \<and> (\<exists>pre rest p1 out1.
           [''-x'', ''ok'', ''-x'', ''bad''] = pre @ rest
           \<and> parse_loop picky_parser (int (length (''prog'' # pre))) (''prog'' # pre) 1
               = Some (None, p1, out1)
           \<and> mProvided (mOptionRefs p1 ! 0)
           \<and> mProvided
               (mOptionRefs
                  (picky_parser\<lparr>mOptionRefs :=
                     [picky_option\<lparr>mArgsRef := [Argument_init ''n'' []\<lparr>mValue := ''bad''\<rparr>],
                                   mProvided := True\<rparr>]\<rparr>) ! 0))"
proof -
  let ?p' = "picky_parser\<lparr>mOptionRefs :=
           [picky_option\<lparr>mArgsRef := [Argument_init ''n'' []\<lparr>mValue := ''bad''\<rparr>],
                         mProvided := True\<rparr>]\<rparr>"
  have failed: "parse picky_parser (int (length (''prog'' # [''-x'', ''ok'', ''-x'', ''bad''])))
      (''prog'' # [''-x'', ''ok'', ''-x'', ''bad'']) = Some (PARSED_FAILED_VALIDATOR, ?p', silent)"
    using picky_rematch_bad by simp
  have kind: "PARSED_FAILED_VALIDATOR = PARSED_FAILED
      \<or> PARSED_FAILED_VALIDATOR = PARSED_FAILED_VALIDATOR" by simp
  from parse_failure_keeps_writes [OF failed kind] obtain pre rest p1 out1 where
    split: "[''-x'', ''ok'', ''-x'', ''bad''] = pre @ rest"
    and scan: "parse_loop picky_parser (int (length (''prog'' # pre))) (''prog'' # pre) 1
               = Some (None, p1, out1)"
    and len: "length (mOptionRefs ?p') = length (mOptionRefs p1)"
    and kept: "\<forall>k < length (mOptionRefs p1).
                mProvided (mOptionRefs ?p' ! k) = mProvided (mOptionRefs p1 ! k)
                \<and> length (mArgsRef (mOptionRefs ?p' ! k)) = length (mArgsRef (mOptionRefs p1 ! k))
                \<and> (\<forall>j < length (mArgsRef (mOptionRefs p1 ! k)).
                     mValue (mArgsRef (mOptionRefs ?p' ! k) ! j)
                       = (if rest \<noteq> [] \<and> mOptionsMap p1 (hd rest) = Some k \<and> j < length (tl rest)
                          then tl rest ! j
                          else mValue (mArgsRef (mOptionRefs p1 ! k) ! j)))"
    by (elim exE conjE)
  from len have "length (mOptionRefs p1) = 1" by simp
  then have "0 < length (mOptionRefs p1)" by arith
  with kept have "mProvided (mOptionRefs ?p' ! 0) = mProvided (mOptionRefs p1 ! 0)" by blast
  then have "mProvided (mOptionRefs p1 ! 0)" and "mProvided (mOptionRefs ?p' ! 0)" by simp_all
  with split scan have "\<exists>pre rest p1 out1.
           [''-x'', ''ok'', ''-x'', ''bad''] = pre @ rest
           \<and> parse_loop picky_parser (int (length (''prog'' # pre))) (''prog'' # pre) 1
               = Some (None, p1, out1)
           \<and> mProvided (mOptionRefs p1 ! 0)
           \<and> mProvided (mOptionRefs ?p' ! 0)"
    by (intro exI [of _ pre] exI [of _ rest] exI [of _ p1] exI [of _ out1] conjI)
  with picky_rematch_bad show ?thesis by (intro conjI)
qed

end
